theory Spec2Isabelle
  imports Complex_Main "HOL-Library.Multiset"
begin

section \<open>The number type of the language: IEEE 754 binary64\<close>

text \<open>
  Every value of the TypeScript type \<open>number\<close> is a binary64 floating-point value.
  A finite double is an integer multiple of \<open>2 ^ -1074\<close> (the smallest subnormal), so
  \<open>Finite s k\<close> stands for \<open>(-1) ^ s * k * 2 ^ -1074\<close>: \<open>s\<close> is the sign bit and \<open>k\<close> the
  magnitude counted in units of \<open>2 ^ -1074\<close>.  The two zeros are \<open>Finite False 0\<close> and
  \<open>Finite True 0\<close>; \<open>1\<close> is \<open>Finite False (2 ^ 1074)\<close>; the largest finite double is
  \<open>Finite False ((2 ^ 53 - 1) * 2 ^ 2045)\<close>.
\<close>

datatype number = NaN | Infinity bool | Finite bool nat

fun bit_length :: "nat \<Rightarrow> nat" where
  "bit_length n = (if n = 0 then 0 else Suc (bit_length (n div 2)))"

declare bit_length.simps [simp del]

text \<open>\<open>round_half_even n d\<close> is the integer nearest to \<open>n / d\<close>, ties going to the even one.\<close>

definition round_half_even :: "nat \<Rightarrow> nat \<Rightarrow> nat" where
  "round_half_even n d =
     (let q = n div d; r = n mod d
      in if 2 * r < d \<or> (2 * r = d \<and> even q) then q else q + 1)"

text \<open>
  \<open>round_units n d\<close> rounds the exact magnitude \<open>n / d\<close> (in units of \<open>2 ^ -1074\<close>) to the
  nearest magnitude with at most 53 significant bits, ties to even, with no bound on the
  exponent.  Below \<open>2 ^ 53\<close> units (the subnormals and the first binade of normal numbers)
  the spacing is one unit; a magnitude of \<open>b > 53\<close> bits is spaced \<open>2 ^ (b - 53)\<close> apart.
\<close>

definition round_units :: "nat \<Rightarrow> nat \<Rightarrow> nat" where
  "round_units n d =
     (let sh = bit_length (n div d) - 53
      in round_half_even n (d * 2 ^ sh) * 2 ^ sh)"

text \<open>A rounded magnitude of \<open>2 ^ 1024\<close> (\<open>2 ^ 2098\<close> units) or more overflows to an infinity.\<close>

definition pack :: "bool \<Rightarrow> nat \<Rightarrow> number" where
  "pack s k = (if k < 2 ^ 2098 then Finite s k else Infinity s)"

text \<open>The operators \<open>+\<close> and \<open>*\<close> of the language on numbers, in round-to-nearest-even.\<close>

instantiation number :: "{zero, plus, times}"
begin

definition zero_number :: number where
  "zero_number = Finite False 0"

fun plus_number :: "number \<Rightarrow> number \<Rightarrow> number" where
  "plus_number NaN y = NaN"
| "plus_number x NaN = NaN"
| "plus_number (Infinity s) (Infinity t) = (if s = t then Infinity s else NaN)"
| "plus_number (Infinity s) (Finite t b) = Infinity s"
| "plus_number (Finite s a) (Infinity t) = Infinity t"
| "plus_number (Finite s a) (Finite t b) =
     (if s = t then pack s (round_units (a + b) 1)
      else if a = b then Finite False 0
      else if b < a then pack s (round_units (a - b) 1)
      else pack t (round_units (b - a) 1))"

fun times_number :: "number \<Rightarrow> number \<Rightarrow> number" where
  "times_number NaN y = NaN"
| "times_number x NaN = NaN"
| "times_number (Infinity s) (Infinity t) = Infinity (s \<noteq> t)"
| "times_number (Infinity s) (Finite t b) = (if b = 0 then NaN else Infinity (s \<noteq> t))"
| "times_number (Finite s a) (Infinity t) = (if a = 0 then NaN else Infinity (s \<noteq> t))"
| "times_number (Finite s a) (Finite t b) =
     pack (s \<noteq> t) (round_units (a * b) (2 ^ 1074))"

instance ..

end

text \<open>
  A numeric literal of the source text denotes the double nearest to its mathematical
  value: \<open>lit n d\<close> is the literal whose value is \<open>n / d\<close>, so \<open>0.5\<close> is \<open>lit 5 10\<close> and
  \<open>10\<close> is \<open>lit 10 1\<close>.
\<close>

definition lit :: "nat \<Rightarrow> nat \<Rightarrow> number" where
  "lit n d = pack False (round_units (n * 2 ^ 1074) d)"

text \<open>\<open>Math.PI\<close> is the double nearest to \<open>\<pi>\<close>: \<open>884279719003555 * 2 ^ -48\<close>.\<close>

definition PI :: number where
  "PI = Finite False (884279719003555 * 2 ^ 1026)"

text \<open>\<open>dbl s m j\<close> is the double \<open>(-1) ^ s * m * 2 ^ (j - 1074)\<close>.\<close>

definition dbl :: "bool \<Rightarrow> nat \<Rightarrow> nat \<Rightarrow> number" where
  "dbl s m j = Finite s (m * 2 ^ j)"

text \<open>The magnitude of a finite number, in units of \<open>2 ^ -1074\<close>.\<close>

definition units :: "number \<Rightarrow> nat" where
  "units x = (case x of Finite s k \<Rightarrow> k | _ \<Rightarrow> 0)"

definition isFinite :: "number \<Rightarrow> bool" where
  "isFinite x = (case x of Finite s k \<Rightarrow> True | _ \<Rightarrow> False)"

text \<open>A number that is neither \<open>NaN\<close> nor negative: \<open>+0\<close>, a positive double or \<open>+Infinity\<close>.\<close>

definition non_negative :: "number \<Rightarrow> bool" where
  "non_negative x = (case x of Finite s k \<Rightarrow> \<not> s | Infinity s \<Rightarrow> \<not> s | NaN \<Rightarrow> False)"

text \<open>A positive finite number, the dimension the specification expects.\<close>

definition positive_finite :: "number \<Rightarrow> bool" where
  "positive_finite x = (case x of Finite s k \<Rightarrow> \<not> s \<and> 0 < k | _ \<Rightarrow> False)"

text \<open>
  The doubles among the values of the datatype: a finite one has a magnitude of at most
  53 significant bits (rounding leaves it as it is), below \<open>2 ^ 1024\<close>.
\<close>

definition is_double :: "number \<Rightarrow> bool" where
  "is_double x = (case x of Finite s k \<Rightarrow> round_units k 1 = k \<and> k < 2 ^ 2098 | _ \<Rightarrow> True)"


section \<open>Number::toString and JSON.stringify\<close>

text \<open>
  \<open>Number_toString\<close> follows Number::toString of ECMA-262 for radix 10.  For a positive
  finite \<open>x\<close> it takes integers \<open>n\<close>, \<open>k\<close>, \<open>s\<close> with \<open>10 ^ (k - 1) \<le> s < 10 ^ k\<close> such that
  \<open>s * 10 ^ (n - k)\<close> rounds to \<open>x\<close> and \<open>k\<close> is as small as possible (of two such \<open>s\<close> the
  one nearer to \<open>x\<close>, the even one on a tie), and prints the digits of \<open>s\<close> in positional
  notation when \<open>-6 < n \<le> 21\<close> and in exponent notation otherwise.
\<close>

definition digit :: "nat \<Rightarrow> char" where
  "digit d = ''0123456789'' ! (d mod 10)"

fun decimal :: "nat \<Rightarrow> string" where
  "decimal n = (if n < 10 then [digit n] else decimal (n div 10) @ [digit (n mod 10)])"

declare decimal.simps [simp del]

fun digits10 :: "nat \<Rightarrow> nat" where
  "digits10 n = (if n < 10 then 1 else Suc (digits10 (n div 10)))"

declare digits10.simps [simp del]

text \<open>The \<open>n\<close> with \<open>10 ^ (n - 1) \<le> p * 2 ^ -1074 < 10 ^ n\<close>, for \<open>p > 0\<close>.\<close>

definition decimal_exponent :: "nat \<Rightarrow> int" where
  "decimal_exponent p =
     (if 2 ^ 1074 \<le> p then int (digits10 (p div 2 ^ 1074))
      else 1 - int (digits10 ((2 ^ 1074 - 1) div p)))"

text \<open>The integer part of \<open>p * 2 ^ -1074 / 10 ^ e\<close>.\<close>

definition scaled_floor :: "nat \<Rightarrow> int \<Rightarrow> nat" where
  "scaled_floor p e =
     (if 0 \<le> e then p div (2 ^ 1074 * 10 ^ nat e) else (p * 10 ^ nat (- e)) div 2 ^ 1074)"

text \<open>The magnitude, in units, of the double nearest to \<open>s * 10 ^ e\<close>.\<close>

definition decimal_units :: "nat \<Rightarrow> int \<Rightarrow> nat" where
  "decimal_units s e =
     (if 0 \<le> e then round_units (s * 10 ^ nat e * 2 ^ 1074) 1
      else round_units (s * 2 ^ 1074) (10 ^ nat (- e)))"

text \<open>
  Whether \<open>lo * 10 ^ e\<close> is to be preferred to \<open>(lo + 1) * 10 ^ e\<close> as the decimal for
  \<open>p * 2 ^ -1074\<close>, which lies between them: it is nearer, or as near and \<open>lo\<close> is even.
\<close>

definition prefer_lower :: "nat \<Rightarrow> nat \<Rightarrow> int \<Rightarrow> bool" where
  "prefer_lower p lo e =
     (let v2 = (if 0 \<le> e then 2 * p else 2 * p * 10 ^ nat (- e));
          m2 = (if 0 \<le> e then (2 * lo + 1) * 10 ^ nat e * 2 ^ 1074 else (2 * lo + 1) * 2 ^ 1074)
      in v2 < m2 \<or> (v2 = m2 \<and> even lo))"

text \<open>
  The search for the shortest decimal: \<open>k\<close> digits are tried for \<open>k = 1, 2, \<dots>\<close>; with \<open>k\<close>
  digits the only candidates are the two neighbours of \<open>x\<close> on the grid of spacing
  \<open>10 ^ (n - k)\<close>.  The result \<open>(s, e)\<close> stands for \<open>s * 10 ^ e\<close>.  The search ends at the
  latest on the grid of spacing \<open>10 ^ -1074\<close>, which holds every multiple of \<open>2 ^ -1074\<close>:
  there the integer part is the number itself (the equation for fuel \<open>0\<close>).
\<close>

fun shortest :: "nat \<Rightarrow> nat \<Rightarrow> int \<Rightarrow> nat \<Rightarrow> nat \<times> int" where
  "shortest 0 p n k = (scaled_floor p (n - int k), n - int k)"
| "shortest (Suc fuel) p n k =
     (let e = n - int k;
          lo = scaled_floor p e;
          hi = lo + 1;
          lo_ok = (decimal_units lo e = p);
          hi_ok = (decimal_units hi e = p)
      in if lo_ok \<and> hi_ok then (if prefer_lower p lo e then lo else hi, e)
         else if lo_ok then (lo, e)
         else if hi_ok then (hi, e)
         else shortest fuel p n (Suc k))"

definition shortest_decimal :: "nat \<Rightarrow> nat \<times> int" where
  "shortest_decimal p =
     shortest (nat (decimal_exponent p + 1073)) p (decimal_exponent p) 1"

definition strip_zeros :: "string \<Rightarrow> string" where
  "strip_zeros ds = rev (dropWhile (\<lambda>c. c = CHR ''0'') (rev ds))"

text \<open>
  The last steps of Number::toString: the digits \<open>ds\<close> with the decimal point after \<open>n\<close>
  of them, in positional notation for \<open>-6 < n \<le> 21\<close> and with an exponent otherwise.
\<close>

definition format_decimal :: "string \<Rightarrow> int \<Rightarrow> string" where
  "format_decimal ds n =
     (let k = int (length ds) in
      if 0 < n \<and> n \<le> 21 then
        (if k \<le> n then ds @ replicate (nat (n - k)) CHR ''0''
         else take (nat n) ds @ ''.'' @ drop (nat n) ds)
      else if - 6 < n \<and> n \<le> 0 then ''0.'' @ replicate (nat (- n)) CHR ''0'' @ ds
      else
        (let ex = (if n - 1 < 0 then ''-'' else ''+'') @ decimal (nat \<bar>n - 1\<bar>)
         in if k = 1 then ds @ ''e'' @ ex else take 1 ds @ ''.'' @ drop 1 ds @ ''e'' @ ex))"

definition Number_toString :: "number \<Rightarrow> string" where
  "Number_toString x =
     (case x of
        NaN \<Rightarrow> ''NaN''
      | Infinity s \<Rightarrow> (if s then ''-Infinity'' else ''Infinity'')
      | Finite s p \<Rightarrow>
          if p = 0 then ''0''
          else (let (m, e) = shortest_decimal p; ds = decimal m
                in (if s then ''-'' else []) @
                   format_decimal (strip_zeros ds) (e + int (length ds))))"

text \<open>
  JSON.stringify on the values the program passes to it: an object whose properties hold
  numbers.  A finite number is serialised by Number::toString, any other number as
  \<open>null\<close> (SerializeJSONProperty); a property name is quoted (QuoteJSONString, here for
  ASCII names), and the members are separated by commas inside braces
  (SerializeJSONObject).
\<close>

definition SerializeJSONNumber :: "number \<Rightarrow> string" where
  "SerializeJSONNumber x = (if isFinite x then Number_toString x else ''null'')"

definition hex_digit :: "nat \<Rightarrow> char" where
  "hex_digit d = ''0123456789abcdef'' ! (d mod 16)"

definition quote_char :: "char \<Rightarrow> string" where
  "quote_char c =
     (if c = CHR 0x22 then [CHR 0x5C, CHR 0x22]
      else if c = CHR 0x5C then [CHR 0x5C, CHR 0x5C]
      else if c = CHR 0x08 then [CHR 0x5C, CHR ''b'']
      else if c = CHR 0x0C then [CHR 0x5C, CHR ''f'']
      else if c = CHR 0x0A then [CHR 0x5C, CHR ''n'']
      else if c = CHR 0x0D then [CHR 0x5C, CHR ''r'']
      else if c = CHR 0x09 then [CHR 0x5C, CHR ''t'']
      else if of_char c < (32 :: nat)
        then [CHR 0x5C, CHR ''u'', CHR ''0'', CHR ''0'',
              hex_digit (of_char c div 16), hex_digit (of_char c)]
      else [c])"

definition QuoteJSONString :: "string \<Rightarrow> string" where
  "QuoteJSONString str = [CHR 0x22] @ concat (map quote_char str) @ [CHR 0x22]"

fun join_comma :: "string list \<Rightarrow> string" where
  "join_comma [] = []"
| "join_comma [m] = m"
| "join_comma (m # ms) = m @ '','' @ join_comma ms"

definition JSON_stringify :: "(string \<times> number) list \<Rightarrow> string" where
  "JSON_stringify object =
     ''{'' @ join_comma (map (\<lambda>(key, v). QuoteJSONString key @ '':'' @ SerializeJSONNumber v) object)
       @ ''}''"


section \<open>The programs\<close>

text \<open>
  \<open>Array.prototype.reduce\<close> with an initial value: the callback is applied to the
  accumulator and each element in turn, from index 0 upwards.
\<close>

fun reduce :: "('b \<Rightarrow> 'a \<Rightarrow> 'b) \<Rightarrow> 'b \<Rightarrow> 'a list \<Rightarrow> 'b" where
  "reduce callback acc [] = acc"
| "reduce callback acc (x # xs) = reduce callback (callback acc x) xs"

subsection \<open>The OCP-compliant calculator\<close>

text \<open>
  The classes implementing \<open>Shape\<close>, each with its public constructor fields:
  \<open>Square width\<close>, \<open>Circle radius\<close>, \<open>Triangle base height\<close>.
\<close>

datatype Shape = Square number | Circle number | Triangle number number

fun area :: "Shape \<Rightarrow> number" where
  "area (Square width) = width * width"
| "area (Circle radius) = PI * radius * radius"
| "area (Triangle base height) = lit 5 10 * base * height"

record AreaCalculator =
  shapes :: "Shape list"

definition AreaCalculator_sum :: "AreaCalculator \<Rightarrow> number" where
  "AreaCalculator_sum this = reduce (\<lambda>acc shape. acc + area shape) 0 (shapes this)"

subsection \<open>The SRP-compliant calculator and its outputter\<close>

text \<open>The classes here are \<open>Circle radius\<close> and \<open>Square length\<close>.\<close>

datatype srp_Shape = srp_Circle number | srp_Square number

fun srp_area :: "srp_Shape \<Rightarrow> number" where
  "srp_area (srp_Circle radius) = PI * radius * radius"
| "srp_area (srp_Square length') = length' * length'"

record srp_AreaCalculator =
  srp_shapes :: "srp_Shape list"

definition srp_AreaCalculator_sum :: "srp_AreaCalculator \<Rightarrow> number" where
  "srp_AreaCalculator_sum this =
     reduce (\<lambda>acc shape. acc + srp_area shape) 0 (srp_shapes this)"

record Outputter =
  areaCalculator :: srp_AreaCalculator

text \<open>
  A template literal is the concatenation of its text and of ToString of each
  substitution, which is Number::toString for a number.
\<close>

definition toText :: "Outputter \<Rightarrow> string" where
  "toText this =
     ''Sum of the areas of provided shapes: ''
       @ Number_toString (srp_AreaCalculator_sum (areaCalculator this))"

definition toJson :: "Outputter \<Rightarrow> string" where
  "toJson this =
     JSON_stringify [(''totalArea'', srp_AreaCalculator_sum (areaCalculator this))]"

subsection \<open>The SRP-violating calculator\<close>

text \<open>
  The classes carry their field only.  The \<open>for\<close> loop runs both \<open>instanceof\<close> tests on
  every element, updating the local variable \<open>sum\<close>.
\<close>

datatype srpv_Shape = srpv_Circle number | srpv_Square number

record srpv_AreaCalculator =
  srpv_shapes :: "srpv_Shape list"

fun srpv_loop :: "number \<Rightarrow> srpv_Shape list \<Rightarrow> number" where
  "srpv_loop sum0 [] = sum0"
| "srpv_loop sum0 (shape # rest) =
     (let sum1 = (case shape of srpv_Circle radius \<Rightarrow> sum0 + PI * radius * radius
                              | srpv_Square length' \<Rightarrow> sum0);
          sum2 = (case shape of srpv_Square length' \<Rightarrow> sum1 + length' * length'
                              | srpv_Circle radius \<Rightarrow> sum1)
      in srpv_loop sum2 rest)"

definition srpv_sum :: "srpv_AreaCalculator \<Rightarrow> number" where
  "srpv_sum this = srpv_loop 0 (srpv_shapes this)"

definition srpv_output :: "srpv_AreaCalculator \<Rightarrow> string" where
  "srpv_output this = ''Sum of the areas of provided shapes: '' @ Number_toString (srpv_sum this)"

text \<open>The shape of the violating program with the same dimension as a compliant one.\<close>

fun same_dimensions :: "srp_Shape \<Rightarrow> srpv_Shape" where
  "same_dimensions (srp_Circle radius) = srpv_Circle radius"
| "same_dimensions (srp_Square length') = srpv_Square length'"

subsection \<open>The OCP-violating calculator\<close>

text \<open>
  The array is of type \<open>any[]\<close>: an element is an instance of \<open>Square\<close> (with its
  \<open>width\<close>), an instance of \<open>Circle\<close> (with its \<open>radius\<close>), or any other value.  The
  callback returns no value for such an element, so the accumulator is a number or
  \<open>undefined\<close>; the operator \<open>+\<close> converts \<open>undefined\<close> to \<open>NaN\<close> (ToNumber).
\<close>

datatype any = ocpv_Square number | ocpv_Circle number | other_value

datatype js_value = Undefined | Num number

fun ToNumber :: "js_value \<Rightarrow> number" where
  "ToNumber Undefined = NaN"
| "ToNumber (Num x) = x"

fun ocpv_callback :: "js_value \<Rightarrow> any \<Rightarrow> js_value" where
  "ocpv_callback acc (ocpv_Square width) = Num (ToNumber acc + width * width)"
| "ocpv_callback acc (ocpv_Circle radius) = Num (ToNumber acc + PI * radius * radius)"
| "ocpv_callback acc other_value = Undefined"

definition ocpv_sum :: "any list \<Rightarrow> js_value" where
  "ocpv_sum shapes' = reduce ocpv_callback (Num 0) shapes'"


subsection \<open>Properties the specification speaks of\<close>

text \<open>A shape constructed with positive finite dimensions.\<close>

fun positive_dimensions :: "Shape \<Rightarrow> bool" where
  "positive_dimensions (Square width) = positive_finite width"
| "positive_dimensions (Circle radius) = positive_finite radius"
| "positive_dimensions (Triangle base height) = (positive_finite base \<and> positive_finite height)"

fun srp_positive_dimensions :: "srp_Shape \<Rightarrow> bool" where
  "srp_positive_dimensions (srp_Circle radius) = positive_finite radius"
| "srp_positive_dimensions (srp_Square length') = positive_finite length'"

text \<open>A finite number of magnitude below \<open>2 ^ e\<close>.\<close>

definition magnitude_below :: "nat \<Rightarrow> number \<Rightarrow> bool" where
  "magnitude_below e x = (case x of Finite s k \<Rightarrow> k < 2 ^ (e + 1074) | _ \<Rightarrow> False)"

fun dimensions_below :: "nat \<Rightarrow> Shape \<Rightarrow> bool" where
  "dimensions_below e (Square width) = magnitude_below e width"
| "dimensions_below e (Circle radius) = magnitude_below e radius"
| "dimensions_below e (Triangle base height) = (magnitude_below e base \<and> magnitude_below e height)"

text \<open>
  The texts of the JSON grammar for a number: an optional minus sign, an integer part
  without a leading zero, an optional fraction and an optional exponent.
\<close>

definition is_digit :: "char \<Rightarrow> bool" where
  "is_digit c = (c \<in> set ''0123456789'')"

definition json_exponent :: "string \<Rightarrow> bool" where
  "json_exponent t =
     (case t of
        [] \<Rightarrow> True
      | c # r \<Rightarrow>
          (c = CHR ''e'' \<or> c = CHR ''E'') \<and>
          (let ds = (case r of [] \<Rightarrow> []
                     | c' # r' \<Rightarrow> if c' = CHR ''+'' \<or> c' = CHR ''-'' then r' else r)
           in ds \<noteq> [] \<and> list_all is_digit ds))"

definition json_fraction :: "string \<Rightarrow> bool" where
  "json_fraction t =
     (case t of
        [] \<Rightarrow> True
      | c # r \<Rightarrow>
          if c = CHR ''.'' then takeWhile is_digit r \<noteq> [] \<and> json_exponent (dropWhile is_digit r)
          else json_exponent t)"

definition json_number :: "string \<Rightarrow> bool" where
  "json_number t =
     (let u = (case t of [] \<Rightarrow> [] | c # r \<Rightarrow> if c = CHR ''-'' then r else t);
          ip = takeWhile is_digit u
      in ip \<noteq> [] \<and> (length ip = 1 \<or> hd ip \<noteq> CHR ''0'') \<and> json_fraction (dropWhile is_digit u))"

text \<open>
  The number that \<open>JSON.parse\<close> reads from a text of that grammar: the double nearest
  to the decimal value written, an infinity if that is too large.  The digits of the
  integer part and of the fraction form the integer \<open>m\<close>, and the value is
  \<open>m * 10 ^ (x - f)\<close> for the exponent \<open>x\<close> written and \<open>f\<close> digits of fraction.
\<close>

definition digit_value :: "char \<Rightarrow> nat" where
  "digit_value c = of_char c - 48"

definition digits_value :: "string \<Rightarrow> nat" where
  "digits_value ds = foldl (\<lambda>n c. 10 * n + digit_value c) 0 ds"

definition exponent_value :: "string \<Rightarrow> int" where
  "exponent_value t =
     (case t of
        [] \<Rightarrow> 0
      | c # r \<Rightarrow>
          (case r of
             [] \<Rightarrow> 0
           | c' # r' \<Rightarrow>
               if c' = CHR ''-'' then - int (digits_value r')
               else if c' = CHR ''+'' then int (digits_value r')
               else int (digits_value r)))"

definition json_number_value :: "string \<Rightarrow> number" where
  "json_number_value t =
     (let negative = (case t of [] \<Rightarrow> False | c # r \<Rightarrow> c = CHR ''-'');
          u = (if negative then tl t else t);
          ip = takeWhile is_digit u;
          rest = dropWhile is_digit u;
          point = (case rest of [] \<Rightarrow> False | c # r \<Rightarrow> c = CHR ''.'');
          fs = (if point then takeWhile is_digit (tl rest) else []);
          ex = (if point then dropWhile is_digit (tl rest) else rest)
      in pack negative
           (decimal_units (digits_value (ip @ fs)) (exponent_value ex - int (length fs))))"

text \<open>
  A text that is a JSON object with the one member \<open>totalArea\<close>, whose value is a JSON
  number.
\<close>

definition totalArea_number_record :: "string \<Rightarrow> bool" where
  "totalArea_number_record t =
     (let open' = [CHR ''{'', CHR 0x22] @ ''totalArea'' @ [CHR 0x22, CHR '':'']
      in take (length open') t = open' \<and> length open' < length t \<and> last t = CHR ''}''
         \<and> json_number (butlast (drop (length open') t)))"

text \<open>The text of the JSON object with the one member \<open>totalArea\<close> and the value text \<open>v\<close>.\<close>

definition totalArea_text :: "string \<Rightarrow> string" where
  "totalArea_text v = [CHR ''{'', CHR 0x22] @ ''totalArea'' @ [CHR 0x22, CHR '':''] @ v @ ''}''"

text \<open>
  What a reader of the text finds as the number under \<open>totalArea\<close>: the number read from
  the value text if the text is such a record with a number, and nothing otherwise.
\<close>

definition totalArea_value :: "string \<Rightarrow> number option" where
  "totalArea_value t =
     (let open' = [CHR ''{'', CHR 0x22] @ ''totalArea'' @ [CHR 0x22, CHR '':'']
      in if totalArea_number_record t
         then Some (json_number_value (butlast (drop (length open') t)))
         else None)"







section \<open>Facts about the arithmetic\<close>

subsection \<open>Bit length and rounding\<close>

lemma bit_length_0 [simp]: "bit_length 0 = 0"
  by (simp add: bit_length.simps)

lemma bit_length_pos: "0 < n \<Longrightarrow> bit_length n = Suc (bit_length (n div 2))"
  by (subst bit_length.simps) simp

lemma bit_length_less: "n < 2 ^ bit_length n"
proof (induction n rule: bit_length.induct)
  case (1 n)
  show ?case
  proof (cases "n = 0")
    case True
    then show ?thesis by simp
  next
    case False
    with 1 have "n div 2 < 2 ^ bit_length (n div 2)" by simp
    then have "n < 2 * 2 ^ bit_length (n div 2)" by linarith
    with False show ?thesis by (simp add: bit_length_pos)
  qed
qed

lemma bit_length_ge: "0 < n \<Longrightarrow> 2 ^ (bit_length n - 1) \<le> n"
proof (induction n rule: bit_length.induct)
  case (1 n)
  have e: "bit_length n = Suc (bit_length (n div 2))"
    using 1(2) by (rule bit_length_pos)
  show ?case
  proof (cases "n div 2 = 0")
    case True
    with e have "bit_length n - 1 = 0" by simp
    with 1(2) show ?thesis by simp
  next
    case False
    with 1 have ih: "2 ^ (bit_length (n div 2) - 1) \<le> n div 2" by simp
    from False have "bit_length (n div 2) = Suc (bit_length (n div 2) - 1)"
      using bit_length_pos [of "n div 2"] by simp
    then have "2 ^ bit_length (n div 2) = 2 * (2::nat) ^ (bit_length (n div 2) - 1)"
      by (metis power_Suc)
    with ih have "2 ^ bit_length (n div 2) \<le> n" by linarith
    then show ?thesis by (simp only: e diff_Suc_1)
  qed
qed

lemma bit_length_eqI:
  assumes "2 ^ w \<le> n" and "n < 2 ^ Suc w"
  shows "bit_length n = Suc w"
proof -
  from assms(1) have pos: "0 < n"
    by (metis less_le_trans zero_less_numeral zero_less_power)
  have "(2::nat) ^ w < 2 ^ bit_length n"
    using assms(1) bit_length_less [of n] by linarith
  then have a: "w < bit_length n" by simp
  have "(2::nat) ^ (bit_length n - 1) < 2 ^ Suc w"
    using assms(2) bit_length_ge [OF pos] by linarith
  then have "bit_length n - 1 < Suc w" by (simp only: power_strict_increasing_iff rel_simps)
  with a show ?thesis by linarith
qed

lemma bit_length_gt0: "0 < n \<Longrightarrow> 0 < bit_length n"
  by (simp add: bit_length_pos)

lemma bit_length_mult_pow: 
  assumes "0 < n" shows "bit_length (n * 2 ^ j) = bit_length n + j"
proof -
  from assms obtain w where w: "bit_length n = Suc w"
    using bit_length_gt0 [OF assms] by (cases "bit_length n") simp_all
  have "2 ^ w \<le> n" using bit_length_ge [OF assms] w by simp
  then have a: "2 ^ (w + j) \<le> n * 2 ^ j" by (simp add: power_add)
  have "n < 2 ^ Suc w" using bit_length_less [of n] w by simp
  then have "n * 2 ^ j < 2 ^ Suc w * 2 ^ j" by simp
  then have b: "n * 2 ^ j < 2 ^ Suc (w + j)" by (simp add: power_add mult.assoc)
  from bit_length_eqI [OF a b] w show ?thesis by simp
qed

lemma bit_length_le_iff: "bit_length n \<le> w \<longleftrightarrow> n < 2 ^ w"
proof
  assume "bit_length n \<le> w"
  then have "(2::nat) ^ bit_length n \<le> 2 ^ w" by simp
  with bit_length_less [of n] show "n < 2 ^ w" by linarith
next
  assume a: "n < 2 ^ w"
  show "bit_length n \<le> w"
  proof (cases "n = 0")
    case True then show ?thesis by simp
  next
    case False
    then have "2 ^ (bit_length n - 1) \<le> n" using bit_length_ge [of n] by simp
    with a have "(2::nat) ^ (bit_length n - 1) < 2 ^ w" by linarith
    then have "bit_length n - 1 < w" by (simp only: power_strict_increasing_iff rel_simps)
    then show ?thesis by linarith
  qed
qed

lemma round_half_even_exact: "0 < d \<Longrightarrow> round_half_even (q * d) d = q"
  by (simp add: round_half_even_def)

lemma round_half_even_scale:
  "0 < c \<Longrightarrow> round_half_even (n * c) (d * c) = round_half_even n d"
  by (simp add: round_half_even_def Let_def mult.assoc [symmetric] mod_mult_mult2)

lemma round_half_even_Suc_0 [simp]: "round_half_even n (Suc 0) = n"
  by (simp add: round_half_even_def)

lemma round_half_even_one [simp]: "round_half_even n 1 = n"
  by (simp add: round_half_even_def)

lemma round_half_even_cases:
  "round_half_even n d * d = n div d * d \<and> 2 * (n mod d) \<le> d
   \<or> round_half_even n d * d = n div d * d + d \<and> d \<le> 2 * (n mod d)"
proof (cases "2 * (n mod d) < d \<or> (2 * (n mod d) = d \<and> even (n div d))")
  case True
  then have "round_half_even n d = n div d"
    by (simp only: round_half_even_def Let_def if_True)
  moreover from True have "2 * (n mod d) \<le> d" by linarith
  ultimately show ?thesis by simp
next
  case False
  then have "round_half_even n d = n div d + 1"
    by (simp only: round_half_even_def Let_def if_False)
  moreover from False have "d \<le> 2 * (n mod d)" by linarith
  ultimately show ?thesis by simp
qed

lemma round_half_even_upper:
  assumes "0 < d" shows "2 * (round_half_even n d * d) \<le> 2 * n + d"
proof -
  define A where "A = n div d * d"
  define B where "B = n mod d"
  have n: "n = A + B" by (simp add: A_def B_def)
  from round_half_even_cases [of n d]
  have "round_half_even n d * d = A \<and> 2 * B \<le> d \<or> round_half_even n d * d = A + d \<and> d \<le> 2 * B"
    by (simp only: A_def B_def)
  with n show ?thesis by linarith
qed

lemma round_half_even_lower:
  assumes "0 < d" shows "2 * n \<le> 2 * (round_half_even n d * d) + d"
proof -
  define A where "A = n div d * d"
  define B where "B = n mod d"
  have n: "n = A + B" by (simp add: A_def B_def)
  have lt: "B < d" using assms by (simp add: B_def)
  from round_half_even_cases [of n d]
  have "round_half_even n d * d = A \<and> 2 * B \<le> d \<or> round_half_even n d * d = A + d \<and> d \<le> 2 * B"
    by (simp only: A_def B_def)
  with n lt show ?thesis by linarith
qed

lemma round_units_cancel:
  assumes "0 < d" shows "round_units (n * d) d = round_units n 1"
proof -
  have "round_half_even (n * d) (2 ^ (bit_length n - 53) * d)
        = round_half_even n (2 ^ (bit_length n - 53))"
    using assms by (rule round_half_even_scale)
  then have "round_half_even (n * d) (d * 2 ^ (bit_length n - 53))
        = round_half_even n (2 ^ (bit_length n - 53))"
    by (simp only: mult.commute)
  with assms show ?thesis by (simp add: round_units_def Let_def)
qed

lemma round_units_small: "n < 2 ^ 53 \<Longrightarrow> round_units n 1 = n"
proof -
  assume "n < 2 ^ 53"
  then have "bit_length n \<le> 53" by (simp only: bit_length_le_iff)
  then show ?thesis by (simp add: round_units_def)
qed

lemma round_units_0 [simp]: "round_units 0 d = 0"
  by (cases "d = 0") (simp_all add: round_units_def round_half_even_def)

lemma round_units_scale: "round_units (m * 2 ^ j) 1 = round_units m 1 * 2 ^ j"
proof (cases "m = 0")
  case True
  then show ?thesis by simp
next
  case False
  then have bl: "bit_length (m * 2 ^ j) = bit_length m + j" by (simp add: bit_length_mult_pow)
  show ?thesis
  proof (cases "53 \<le> bit_length m")
    case True
    then have sh: "bit_length m + j - 53 = (bit_length m - 53) + j" by simp
    have "round_half_even (m * 2 ^ j) (2 ^ (bit_length m - 53) * 2 ^ j)
          = round_half_even m (2 ^ (bit_length m - 53))"
      by (rule round_half_even_scale) simp
    then show ?thesis
      by (simp add: round_units_def Let_def bl sh power_add mult.assoc)
  next
    case False
    then have small: "round_units m 1 = m"
      by (simp add: round_units_def)
    define t where "t = bit_length m + j - 53"
    from False have tj: "t \<le> j" by (simp add: t_def)
    then have j: "j = (j - t) + t" by simp
    have p: "(2::nat) ^ j = 2 ^ (j - t) * 2 ^ t"
      using tj by (simp add: power_add [symmetric])
    have e: "m * 2 ^ j = (m * 2 ^ (j - t)) * 2 ^ t"
      by (simp only: p mult.assoc)
    have "round_half_even ((m * 2 ^ (j - t)) * 2 ^ t) (2 ^ t) = m * 2 ^ (j - t)"
      by (rule round_half_even_exact) simp
    then have "round_half_even (m * 2 ^ j) (2 ^ t) = m * 2 ^ (j - t)"
      by (simp only: e)
    then have "round_units (m * 2 ^ j) 1 = m * 2 ^ (j - t) * 2 ^ t"
      by (simp add: round_units_def Let_def bl t_def)
    then show ?thesis by (simp only: small e)
  qed
qed

text \<open>The rounding error of an addition is at most \<open>2 ^ -53\<close> of the exact result.\<close>

lemma round_units_error:
  "round_units m 1 * 2 ^ 53 \<le> m * (2 ^ 53 + 1) \<and> m * (2 ^ 53 - 1) \<le> round_units m 1 * 2 ^ 53"
proof (cases "bit_length m \<le> 53")
  case True
  then have "round_units m 1 = m" by (simp add: round_units_def)
  then show ?thesis by (simp add: algebra_simps)
next
  case False
  define sh where "sh = bit_length m - 54"
  from False have bl: "bit_length m = sh + 54" by (simp add: sh_def)
  define r where "r = round_half_even m (2 ^ Suc sh) * 2 ^ Suc sh"
  have r: "round_units m 1 = r"
    by (simp add: round_units_def bl r_def)
  have pos: "0 < m" using False by (cases "m = 0") simp_all
  have "2 ^ (sh + 53) \<le> m" using bit_length_ge [OF pos] by (simp add: bl add.commute)
  then have m: "2 ^ sh * 2 ^ 53 \<le> m" by (simp add: power_add)
  have up: "2 * r \<le> 2 * m + 2 ^ Suc sh"
    unfolding r_def by (rule round_half_even_upper) simp
  have lo: "2 * m \<le> 2 * r + 2 ^ Suc sh"
    unfolding r_def by (rule round_half_even_lower) simp
  from up have up': "r \<le> m + 2 ^ sh" by simp
  from lo have lo': "m \<le> r + 2 ^ sh" by simp
  have "r * 2 ^ 53 \<le> (m + 2 ^ sh) * 2 ^ 53" using up' by (rule mult_le_mono1)
  also have "\<dots> = m * 2 ^ 53 + 2 ^ sh * 2 ^ 53" by (simp only: add_mult_distrib)
  also have "\<dots> \<le> m * 2 ^ 53 + m" using m by simp
  finally have A: "r * 2 ^ 53 \<le> m * (2 ^ 53 + 1)" by (simp only: add_mult_distrib2 mult_1_right)
  have "m * 2 ^ 53 \<le> (r + 2 ^ sh) * 2 ^ 53" using lo' by (rule mult_le_mono1)
  also have "\<dots> = r * 2 ^ 53 + 2 ^ sh * 2 ^ 53" by (simp only: add_mult_distrib)
  also have "\<dots> \<le> r * 2 ^ 53 + m" using m by simp
  finally have "m * 2 ^ 53 - m \<le> r * 2 ^ 53" by simp
  then have B: "m * (2 ^ 53 - 1) \<le> r * 2 ^ 53" by (simp only: diff_mult_distrib2 mult_1_right)
  from A B r show ?thesis by simp
qed

subsection \<open>Evaluating sums and products of given doubles\<close>

lemma pack_dbl: "q < 2 ^ w \<Longrightarrow> w + j \<le> 2098 \<Longrightarrow> pack s (q * 2 ^ j) = dbl s q j"
proof -
  assume q: "q < 2 ^ w" and w: "w + j \<le> 2098"
  from q have "q * 2 ^ j < 2 ^ w * 2 ^ j" by simp
  also have "\<dots> = 2 ^ (w + j)" by (simp add: power_add)
  also have "\<dots> \<le> (2::nat) ^ 2098" using w by (rule power_increasing) simp
  finally show ?thesis by (simp only: pack_def dbl_def if_True)
qed

lemma pack_overflow: "2 ^ w \<le> q \<Longrightarrow> 2098 \<le> w + j \<Longrightarrow> pack s (q * 2 ^ j) = Infinity s"
proof -
  assume q: "2 ^ w \<le> q" and w: "2098 \<le> w + j"
  have "(2::nat) ^ 2098 \<le> 2 ^ (w + j)" using w by (rule power_increasing) simp
  also have "\<dots> = 2 ^ w * 2 ^ j" by (simp add: power_add)
  also have "\<dots> \<le> q * 2 ^ j" using q by simp
  finally have "\<not> q * 2 ^ j < 2 ^ 2098" by simp
  then show ?thesis by (simp only: pack_def if_False)
qed

lemma times_dbl_units:
  assumes "1074 \<le> j1 + j2"
  shows "dbl s m1 j1 * dbl t m2 j2
         = pack (s \<noteq> t) (round_units (m1 * m2) 1 * 2 ^ (j1 + j2 - 1074))"
proof -
  define j where "j = j1 + j2 - 1074"
  from assms have jj: "j1 + j2 = j + 1074" by (simp add: j_def)
  have "m1 * 2 ^ j1 * (m2 * 2 ^ j2) = (m1 * m2) * 2 ^ (j1 + j2)"
    by (simp add: power_add)
  also have "\<dots> = ((m1 * m2) * 2 ^ j) * 2 ^ 1074"
    by (simp only: jj power_add mult.assoc)
  finally have e: "m1 * 2 ^ j1 * (m2 * 2 ^ j2) = ((m1 * m2) * 2 ^ j) * 2 ^ 1074" .
  have "round_units (((m1 * m2) * 2 ^ j) * 2 ^ 1074) (2 ^ 1074) = round_units ((m1 * m2) * 2 ^ j) 1"
    by (rule round_units_cancel) simp
  also have "\<dots> = round_units (m1 * m2) 1 * 2 ^ j" by (rule round_units_scale)
  finally show ?thesis
    by (simp only: dbl_def times_number.simps e j_def)
qed

lemma times_dbl:
  assumes "1074 \<le> j1 + j2" and "round_units (m1 * m2) 1 = q" and "q < 2 ^ w"
    and "w + j \<le> 2098" and "j = j1 + j2 - 1074" and "u = (s \<noteq> t)"
  shows "dbl s m1 j1 * dbl t m2 j2 = dbl u q j"
  using assms(2-4) by (simp only: times_dbl_units [OF assms(1)] pack_dbl assms(5,6) flip: assms(5))

lemma plus_dbl_units:
  assumes "j \<le> j1" and "j \<le> j2"
  shows "dbl s m1 j1 + dbl s m2 j2
         = pack s (round_units (m1 * 2 ^ (j1 - j) + m2 * 2 ^ (j2 - j)) 1 * 2 ^ j)"
proof -
  have p1: "(2::nat) ^ j1 = 2 ^ (j1 - j) * 2 ^ j" using assms(1) by (simp add: power_add [symmetric])
  have p2: "(2::nat) ^ j2 = 2 ^ (j2 - j) * 2 ^ j" using assms(2) by (simp add: power_add [symmetric])
  have "m1 * 2 ^ j1 + m2 * 2 ^ j2 = (m1 * 2 ^ (j1 - j) + m2 * 2 ^ (j2 - j)) * 2 ^ j"
    by (simp only: p1 p2 add_mult_distrib mult.assoc)
  then have "round_units (m1 * 2 ^ j1 + m2 * 2 ^ j2) 1
             = round_units (m1 * 2 ^ (j1 - j) + m2 * 2 ^ (j2 - j)) 1 * 2 ^ j"
    by (simp only: round_units_scale)
  then show ?thesis by (simp add: dbl_def)
qed

lemma plus_dbl:
  assumes "j \<le> j1" and "j \<le> j2"
    and "round_units (m1 * 2 ^ (j1 - j) + m2 * 2 ^ (j2 - j)) 1 = q" and "q < 2 ^ w"
    and "w + j \<le> 2098"
  shows "dbl s m1 j1 + dbl s m2 j2 = dbl s q j"
  using assms(3-5) by (simp only: plus_dbl_units [OF assms(1,2)] pack_dbl)

lemma round_units_numeral:
  assumes "2 ^ (52 + sh) \<le> M" and "M < 2 ^ (53 + sh)"
  shows "round_units M 1 = round_half_even M (2 ^ sh) * 2 ^ sh"
proof -
  have "bit_length M = Suc (52 + sh)"
    using assms by (intro bit_length_eqI) simp_all
  then show ?thesis by (simp add: round_units_def)
qed

lemma round_units_small_Suc: "n < 2 ^ 53 \<Longrightarrow> round_units n (Suc 0) = n"
  using round_units_small [of n] by simp

lemma round_units_numeral_Suc:
  "2 ^ (52 + sh) \<le> M \<Longrightarrow> M < 2 ^ (53 + sh)
   \<Longrightarrow> round_units M (Suc 0) = round_half_even M (2 ^ sh) * 2 ^ sh"
  using round_units_numeral [of sh M] by simp

lemma lit_integer: "n < 2 ^ 53 \<Longrightarrow> lit n 1 = dbl False n 1074"
proof -
  assume n: "n < 2 ^ 53"
  have "round_units (n * 2 ^ 1074) 1 = round_units n 1 * 2 ^ 1074" by (rule round_units_scale)
  also have "round_units n 1 = n" using n by (rule round_units_small)
  finally have "lit n 1 = pack False (n * 2 ^ 1074)" by (simp only: lit_def)
  also have "\<dots> = dbl False n 1074" using n by (rule pack_dbl) simp
  finally show ?thesis .
qed

lemma zero_dbl: "(0::number) = dbl False 0 j"
  by (simp add: zero_number_def dbl_def)

lemma PI_dbl: "PI = dbl False 884279719003555 1026"
  by (simp only: PI_def dbl_def)


subsection \<open>Bounds, signs and finiteness\<close>

lemma round_half_even_ge_div: "n div d \<le> round_half_even n d"
  by (simp add: round_half_even_def Let_def)

lemma round_half_even_le_Suc_div: "round_half_even n d \<le> Suc (n div d)"
  by (simp add: round_half_even_def Let_def)

lemma round_units_le:
  assumes "n div d < 2 ^ w" shows "round_units n d \<le> 2 ^ w"
proof -
  define b where "b = bit_length (n div d)"
  define sh where "sh = b - 53"
  have bw: "b \<le> w" using assms by (simp only: b_def bit_length_le_iff)
  have shb: "sh \<le> b" by (simp add: sh_def)
  have lt: "n div d < 2 ^ b" unfolding b_def by (rule bit_length_less)
  have split: "(2::nat) ^ b = 2 ^ (b - sh) * 2 ^ sh"
    using shb by (simp add: power_add [symmetric])
  have "n div (d * 2 ^ sh) = (n div d) div 2 ^ sh" by (simp add: div_mult2_eq)
  also have "\<dots> < 2 ^ (b - sh)"
    using lt unfolding split by (simp add: less_mult_imp_div_less)
  finally have "Suc (n div (d * 2 ^ sh)) \<le> 2 ^ (b - sh)" by simp
  with round_half_even_le_Suc_div [of n "d * 2 ^ sh"]
  have "round_half_even n (d * 2 ^ sh) \<le> 2 ^ (b - sh)" by (rule le_trans)
  then have "round_half_even n (d * 2 ^ sh) * 2 ^ sh \<le> 2 ^ (b - sh) * 2 ^ sh"
    by (rule mult_le_mono1)
  also have "\<dots> = 2 ^ b" by (simp only: split)
  also have "\<dots> \<le> 2 ^ w" using bw by (rule power_increasing) simp
  finally show ?thesis by (simp add: round_units_def Let_def b_def sh_def)
qed

lemma round_units_ge:
  assumes "2 ^ w \<le> n div d" shows "2 ^ w \<le> round_units n d"
proof -
  define b where "b = bit_length (n div d)"
  define sh where "sh = b - 53"
  have pos: "0 < n div d" using assms by (metis less_le_trans zero_less_numeral zero_less_power)
  have "(2::nat) ^ w < 2 ^ b"
    using assms bit_length_less [of "n div d"] unfolding b_def by linarith
  then have wb: "w < b" by simp
  then have shb: "sh \<le> b - 1" by (simp add: sh_def)
  have ge: "2 ^ (b - 1) \<le> n div d" unfolding b_def using pos by (rule bit_length_ge)
  have split: "(2::nat) ^ (b - 1) = 2 ^ (b - 1 - sh) * 2 ^ sh"
    using shb by (simp add: power_add [symmetric])
  have "2 ^ (b - 1 - sh) = (2 ^ (b - 1 - sh) * 2 ^ sh) div (2::nat) ^ sh" by simp
  also have "\<dots> \<le> (n div d) div 2 ^ sh"
    using ge unfolding split by (rule div_le_mono)
  also have "\<dots> = n div (d * 2 ^ sh)" by (simp add: div_mult2_eq)
  also have "\<dots> \<le> round_half_even n (d * 2 ^ sh)" by (rule round_half_even_ge_div)
  finally have "2 ^ (b - 1 - sh) * 2 ^ sh \<le> round_half_even n (d * 2 ^ sh) * 2 ^ sh"
    by (rule mult_le_mono1)
  then have "2 ^ (b - 1) \<le> round_half_even n (d * 2 ^ sh) * 2 ^ sh"
    by (simp only: split [symmetric])
  then have "2 ^ (b - 1) \<le> round_units n d"
    by (simp add: round_units_def Let_def b_def sh_def)
  moreover have "(2::nat) ^ w \<le> 2 ^ (b - 1)" using wb by (intro power_increasing) simp_all
  ultimately show ?thesis by (rule le_trans [rotated])
qed

lemma non_negative_simps [simp]:
  "non_negative (Finite s k) = (\<not> s)"
  "non_negative (Infinity s) = (\<not> s)"
  "non_negative NaN = False"
  "non_negative (pack s k) = (\<not> s)"
  by (simp_all add: non_negative_def pack_def)

lemma positive_finite_simps [simp]:
  "positive_finite (Finite s k) = (\<not> s \<and> 0 < k)"
  "positive_finite (Infinity s) = False"
  "positive_finite NaN = False"
  by (simp_all add: positive_finite_def)

lemma isFinite_simps [simp]:
  "isFinite (Finite s k) = True"
  "isFinite (Infinity s) = False"
  "isFinite NaN = False"
  by (simp_all add: isFinite_def)

lemma positive_finite_non_negative: "positive_finite x \<Longrightarrow> non_negative x"
  by (cases x) simp_all

lemma non_negative_times:
  "non_negative x \<Longrightarrow> positive_finite y \<Longrightarrow> non_negative (x * y)"
  by (cases x; cases y) simp_all

lemma non_negative_plus: "non_negative x \<Longrightarrow> non_negative y \<Longrightarrow> non_negative (x + y)"
  by (cases x; cases y) simp_all

lemma non_negative_zero [simp]: "non_negative 0"
  by (simp add: zero_number_def)

lemma positive_finite_PI: "positive_finite PI"
  by (simp add: PI_def)

lemma lit_half: "lit 5 10 = dbl False 1 1073"
proof -
  have e: "(5::nat) * 2 ^ 1074 = (1 * 2 ^ 1073) * 10"
    by (simp add: power_Suc [symmetric] del: power_Suc)
  have "round_units ((1 * 2 ^ 1073) * 10) 10 = round_units (1 * 2 ^ 1073) 1"
    by (rule round_units_cancel) simp
  also have "\<dots> = round_units 1 1 * 2 ^ 1073" by (rule round_units_scale)
  also have "round_units 1 1 = 1" by (rule round_units_small) simp
  finally have "lit 5 10 = pack False (1 * 2 ^ 1073)" by (simp only: lit_def e)
  also have "\<dots> = dbl False 1 1073" by (rule pack_dbl [where w = 1]) simp_all
  finally show ?thesis .
qed

lemma positive_finite_half: "positive_finite (lit 5 10)"
  by (simp add: lit_half dbl_def)

lemma area_non_negative: "positive_dimensions shape \<Longrightarrow> non_negative (area shape)"
  by (cases shape)
     (simp_all add: non_negative_times positive_finite_non_negative positive_finite_PI
        positive_finite_half)

lemma srp_area_non_negative: "srp_positive_dimensions shape \<Longrightarrow> non_negative (srp_area shape)"
  by (cases shape)
     (simp_all add: non_negative_times positive_finite_non_negative positive_finite_PI)

lemma reduce_non_negative:
  "non_negative a \<Longrightarrow> list_all (\<lambda>x. non_negative (f x)) xs
   \<Longrightarrow> non_negative (reduce (\<lambda>acc x. acc + f x) a xs)"
  by (induction xs arbitrary: a) (simp_all add: non_negative_plus)


lemma magnitude_below_simps [simp]:
  "magnitude_below e (Finite s k) = (k < 2 ^ (e + 1074))"
  "magnitude_below e (Infinity s) = False"
  "magnitude_below e NaN = False"
  by (simp_all add: magnitude_below_def)

lemma magnitude_below_isFinite: "magnitude_below e x \<Longrightarrow> isFinite x"
  by (cases x) simp_all

lemma times_below:
  assumes "magnitude_below e1 x" and "magnitude_below e2 y" and "e1 + e2 < 1024"
  shows "magnitude_below (e1 + e2 + 1) (x * y)"
proof -
  from assms(1) obtain s a where x: "x = Finite s a" and a: "a < 2 ^ (e1 + 1074)"
    by (cases x) simp_all
  from assms(2) obtain t b where y: "y = Finite t b" and b: "b < 2 ^ (e2 + 1074)"
    by (cases y) simp_all
  define w where "w = e1 + e2 + 1074"
  have "a * b < 2 ^ (e1 + 1074) * 2 ^ (e2 + 1074)"
    using a b by (intro mult_strict_mono) simp_all
  also have "\<dots> = 2 ^ ((e1 + 1074) + (e2 + 1074))" by (rule power_add [symmetric])
  also have "(e1 + 1074) + (e2 + 1074) = w + 1074" by (simp add: w_def)
  also have "(2::nat) ^ (w + 1074) = 2 ^ w * 2 ^ 1074" by (rule power_add)
  finally have "a * b div 2 ^ 1074 < 2 ^ w" by (rule less_mult_imp_div_less)
  then have r: "round_units (a * b) (2 ^ 1074) \<le> 2 ^ w" by (rule round_units_le)
  have "(2::nat) ^ w < 2 ^ Suc w" by simp
  with r have lt: "round_units (a * b) (2 ^ 1074) < 2 ^ Suc w" by (rule le_less_trans)
  have "(2::nat) ^ Suc w \<le> 2 ^ 2098"
    using assms(3) by (intro power_increasing) (simp_all add: w_def)
  with lt have "round_units (a * b) (2 ^ 1074) < 2 ^ 2098" by (rule less_le_trans)
  then have "x * y = Finite (s \<noteq> t) (round_units (a * b) (2 ^ 1074))"
    by (simp only: x y times_number.simps pack_def if_True)
  moreover have "Suc w = e1 + e2 + 1 + 1074" by (simp add: w_def)
  ultimately show ?thesis using lt by (simp only: magnitude_below_simps)
qed

lemma PI_below: "magnitude_below 2 PI"
proof -
  have "(884279719003555::nat) * 2 ^ 1026 < 2 ^ 50 * 2 ^ 1026"
    by (intro mult_strict_right_mono) simp_all
  also have "\<dots> = 2 ^ (2 + 1074)" by (simp add: power_add [symmetric])
  finally show ?thesis by (simp only: PI_def magnitude_below_simps)
qed

lemma half_below: "magnitude_below 0 (lit 5 10)"
  by (simp add: lit_half dbl_def)

lemma square_finite: "magnitude_below 510 w \<Longrightarrow> isFinite (w * w)"
proof -
  assume w: "magnitude_below 510 w"
  from w w have "magnitude_below (510 + 510 + 1) (w * w)" by (rule times_below) simp
  then show ?thesis by (rule magnitude_below_isFinite)
qed

lemma circle_finite: "magnitude_below 510 r \<Longrightarrow> isFinite (PI * r * r)"
proof -
  assume r: "magnitude_below 510 r"
  with PI_below have "magnitude_below (2 + 510 + 1) (PI * r)" by (rule times_below) simp
  then have "magnitude_below (2 + 510 + 1 + 510 + 1) (PI * r * r)"
    using r by (rule times_below) simp
  then show ?thesis by (rule magnitude_below_isFinite)
qed

lemma triangle_finite:
  "magnitude_below 510 b \<Longrightarrow> magnitude_below 510 h \<Longrightarrow> isFinite (lit 5 10 * b * h)"
proof -
  assume b: "magnitude_below 510 b" and h: "magnitude_below 510 h"
  from half_below b have "magnitude_below (0 + 510 + 1) (lit 5 10 * b)"
    by (rule times_below) simp
  then have "magnitude_below (0 + 510 + 1 + 510 + 1) (lit 5 10 * b * h)"
    using h by (rule times_below) simp
  then show ?thesis by (rule magnitude_below_isFinite)
qed

lemma area_finite: "dimensions_below 510 shape \<Longrightarrow> isFinite (area shape)"
  by (cases shape) (simp_all add: square_finite circle_finite triangle_finite)

lemma lit_1e200: "lit (10 ^ 200) 1 = dbl False 5883593420661338 1686"
proof -
  have e: "(10::nat) ^ 200 * 2 ^ 1074 = 5 ^ 200 * 2 ^ 1274"
  proof -
    have "(10::nat) ^ 200 = (5 * 2) ^ 200" by simp
    also have "\<dots> = 5 ^ 200 * 2 ^ 200" by (rule power_mult_distrib)
    finally have "(10::nat) ^ 200 * 2 ^ 1074 = 5 ^ 200 * (2 ^ 200 * 2 ^ 1074)"
      by (simp only: mult.assoc)
    also have "(2::nat) ^ 200 * 2 ^ 1074 = 2 ^ 1274" by (simp add: power_add [symmetric])
    finally show ?thesis .
  qed
  have r: "round_units (5 ^ 200) 1 = 5883593420661338 * 2 ^ 412"
    by (subst round_units_numeral [where sh = 412]) (simp_all add: round_half_even_def)
  have "round_units (5 ^ 200 * 2 ^ 1274) 1 = round_units (5 ^ 200) 1 * 2 ^ 1274"
    by (rule round_units_scale)
  also have "\<dots> = 5883593420661338 * (2 ^ 412 * 2 ^ 1274)" by (simp only: r mult.assoc)
  also have "(2::nat) ^ 412 * 2 ^ 1274 = 2 ^ 1686" by (simp add: power_add [symmetric])
  finally have "lit (10 ^ 200) 1 = pack False (5883593420661338 * 2 ^ 1686)"
    by (simp only: lit_def e)
  also have "\<dots> = dbl False 5883593420661338 1686"
    by (rule pack_dbl [where w = 53]) simp_all
  finally show ?thesis .
qed

lemma times_dbl_overflow:
  assumes "1074 \<le> j1 + j2" and "2 ^ w \<le> m1 * m2" and "2098 + 1074 \<le> w + (j1 + j2)"
  shows "dbl s m1 j1 * dbl t m2 j2 = Infinity (s \<noteq> t)"
proof -
  have "2 ^ w \<le> round_units (m1 * m2) 1"
    using assms(2) by (intro round_units_ge) simp
  moreover have "2098 \<le> w + (j1 + j2 - 1074)" using assms(1,3) by simp
  ultimately have "pack (s \<noteq> t) (round_units (m1 * m2) 1 * 2 ^ (j1 + j2 - 1074)) = Infinity (s \<noteq> t)"
    by (rule pack_overflow)
  then show ?thesis by (simp only: times_dbl_units [OF assms(1)])
qed

lemma area_1e200: "area (Square (lit (10 ^ 200) 1)) = Infinity False"
  unfolding area.simps lit_1e200
  by (simp add: times_dbl_overflow [where w = 104])

subsection \<open>The error of a sum of non-negative numbers\<close>

lemma tolerance_step:
  fixes m r S a L B U :: nat
  assumes mL: "m * L \<le> r * B" and rB: "r * B \<le> m * U" and LB: "L \<le> B" and BU: "B \<le> U"
    and ih1: "(r + S) * L ^ n \<le> a * B ^ n" and ih2: "a * B ^ n \<le> (r + S) * U ^ n"
  shows "(m + S) * L ^ Suc n \<le> a * B ^ Suc n \<and> a * B ^ Suc n \<le> (m + S) * U ^ Suc n"
proof
  have "S * L \<le> S * B" using LB by simp
  with mL have "m * L + S * L \<le> r * B + S * B" by (rule add_mono)
  then have "(m + S) * L \<le> (r + S) * B" by (simp only: add_mult_distrib)
  then have "(m + S) * L * L ^ n \<le> (r + S) * B * L ^ n" by (rule mult_le_mono1)
  also have "\<dots> = B * ((r + S) * L ^ n)" by (simp only: mult_ac)
  also have "\<dots> \<le> B * (a * B ^ n)" using ih1 by (rule mult_le_mono2)
  finally show "(m + S) * L ^ Suc n \<le> a * B ^ Suc n" by (simp add: mult_ac)
next
  have "S * B \<le> S * U" using BU by simp
  with rB have "r * B + S * B \<le> m * U + S * U" by (rule add_mono)
  then have le: "(r + S) * B \<le> (m + S) * U" by (simp only: add_mult_distrib)
  have "B * (a * B ^ n) \<le> B * ((r + S) * U ^ n)" using ih2 by (rule mult_le_mono2)
  also have "\<dots> = (r + S) * B * U ^ n" by (simp only: mult_ac)
  also have "\<dots> \<le> (m + S) * U * U ^ n" using le by (rule mult_le_mono1)
  finally show "a * B ^ Suc n \<le> (m + S) * U ^ Suc n" by (simp add: mult_ac)
qed

lemma reduce_Infinity:
  "list_all (\<lambda>x. non_negative (f x)) xs
   \<Longrightarrow> reduce (\<lambda>acc x. acc + f x) (Infinity False) xs = Infinity False"
proof (induction xs)
  case Nil
  show ?case by simp
next
  case (Cons x xs)
  from Cons.prems have "non_negative (f x)" by simp
  then have "Infinity False + f x = Infinity False" by (cases "f x") simp_all
  with Cons show ?case by simp
qed

text \<open>
  A sum of non-negative numbers that ends finite: every partial sum was finite, and the
  result differs from the exact sum by a factor between \<open>(1 - 2 ^ -53) ^ n\<close> and
  \<open>(1 + 2 ^ -53) ^ n\<close>.
\<close>

lemma reduce_finite_bounds:
  assumes "list_all (\<lambda>x. non_negative (f x)) xs"
    and "reduce (\<lambda>acc x. acc + f x) (Finite False c) xs = Finite t a"
  shows "\<not> t \<and> list_all (\<lambda>x. isFinite (f x)) xs
         \<and> (c + sum_list (map (\<lambda>x. units (f x)) xs)) * (2 ^ 53 - 1) ^ length xs \<le> a * (2 ^ 53) ^ length xs
         \<and> a * (2 ^ 53) ^ length xs \<le> (c + sum_list (map (\<lambda>x. units (f x)) xs)) * (2 ^ 53 + 1) ^ length xs"
  using assms
proof (induction xs arbitrary: c)
  case Nil
  then show ?case by simp
next
  case (Cons x xs)
  from Cons.prems(1) have nx: "non_negative (f x)" and nxs: "list_all (\<lambda>x. non_negative (f x)) xs"
    by simp_all
  from nx consider k where "f x = Finite False k" | "f x = Infinity False"
    by (cases "f x") simp_all
  then show ?case
  proof cases
    case 2
    then have "Finite False c + f x = Infinity False" by simp
    with Cons.prems(2) reduce_Infinity [OF nxs] show ?thesis by simp
  next
    case 1
    define r where "r = round_units (c + k) 1"
    have step: "Finite False c + f x = pack False r" by (simp add: 1 r_def)
    show ?thesis
    proof (cases "r < 2 ^ 2098")
      case False
      then have "Finite False c + f x = Infinity False" by (simp only: step pack_def if_False)
      with Cons.prems(2) reduce_Infinity [OF nxs] show ?thesis by simp
    next
      case True
      then have "Finite False c + f x = Finite False r" by (simp only: step pack_def if_True)
      with Cons.prems(2) have "reduce (\<lambda>acc x. acc + f x) (Finite False r) xs = Finite t a"
        by simp
      from Cons.IH [OF nxs this]
      have t: "\<not> t" and fin: "list_all (\<lambda>x. isFinite (f x)) xs"
        and ih1: "(r + sum_list (map (\<lambda>x. units (f x)) xs)) * (2 ^ 53 - 1) ^ length xs
                  \<le> a * (2 ^ 53) ^ length xs"
        and ih2: "a * (2 ^ 53) ^ length xs
                  \<le> (r + sum_list (map (\<lambda>x. units (f x)) xs)) * (2 ^ 53 + 1) ^ length xs"
        by simp_all
      from round_units_error [of "c + k"]
      have e1: "(c + k) * (2 ^ 53 - 1) \<le> r * 2 ^ 53" and e2: "r * 2 ^ 53 \<le> (c + k) * (2 ^ 53 + 1)"
        by (simp_all only: r_def)
      have "(2::nat) ^ 53 - 1 \<le> 2 ^ 53" and "(2::nat) ^ 53 \<le> 2 ^ 53 + 1" by simp_all
      from tolerance_step [OF e1 e2 this ih1 ih2]
      have "(c + k + sum_list (map (\<lambda>x. units (f x)) xs)) * (2 ^ 53 - 1) ^ Suc (length xs)
              \<le> a * (2 ^ 53) ^ Suc (length xs)
            \<and> a * (2 ^ 53) ^ Suc (length xs)
              \<le> (c + k + sum_list (map (\<lambda>x. units (f x)) xs)) * (2 ^ 53 + 1) ^ Suc (length xs)" .
      moreover have "units (f x) = k" by (simp add: 1 units_def)
      ultimately show ?thesis using t fin 1 by (simp add: add.assoc)
    qed
  qed
qed

lemma permutation_tolerance:
  fixes a b S L B U :: nat
  assumes "a * B ^ n \<le> S * U ^ n" and "S * L ^ n \<le> b * B ^ n" and "0 < B"
  shows "a * L ^ n \<le> b * U ^ n"
proof -
  have "(a * L ^ n) * B ^ n = (a * B ^ n) * L ^ n" by (simp only: mult_ac)
  also have "\<dots> \<le> (S * U ^ n) * L ^ n" using assms(1) by (rule mult_le_mono1)
  also have "\<dots> = (S * L ^ n) * U ^ n" by (simp only: mult_ac)
  also have "\<dots> \<le> (b * B ^ n) * U ^ n" using assms(2) by (rule mult_le_mono1)
  also have "\<dots> = (b * U ^ n) * B ^ n" by (simp only: mult_ac)
  finally show ?thesis using assms(3) by simp
qed


subsection \<open>Finite sums, and some sums evaluated\<close>

lemma reduce_finite:
  assumes "list_all (\<lambda>x. non_negative (f x) \<and> isFinite (f x)) xs"
    and "(c + sum_list (map (\<lambda>x. units (f x)) xs)) * (2 ^ 53 + 1) ^ length xs
         < 2 ^ 2098 * (2 ^ 53) ^ length xs"
  shows "isFinite (reduce (\<lambda>acc x. acc + f x) (Finite False c) xs)"
  using assms
proof (induction xs arbitrary: c)
  case Nil
  show ?case by simp
next
  case (Cons x xs)
  define S where "S = sum_list (map (\<lambda>x. units (f x)) xs)"
  define n where "n = length xs"
  define B :: nat where "B = 2 ^ 53"
  define U :: nat where "U = 2 ^ 53 + 1"
  define T :: nat where "T = 2 ^ 2098"
  have BU: "B \<le> U" and Bpos: "0 < B" by (simp_all add: B_def U_def)
  from Cons.prems(1) obtain k where fx: "f x = Finite False k"
    by (cases "f x") simp_all
  from Cons.prems(1) have rest: "list_all (\<lambda>x. non_negative (f x) \<and> isFinite (f x)) xs"
    by simp
  define r where "r = round_units (c + k) 1"
  have bound: "(c + k + S) * U ^ Suc n < T * B ^ Suc n"
    using Cons.prems(2) by (simp add: fx units_def S_def n_def B_def U_def T_def add.assoc)
  from round_units_error [of "c + k"] have rB: "r * B \<le> (c + k) * U"
    by (simp only: r_def B_def U_def)
  have "S * B \<le> S * U" using BU by simp
  with rB have "r * B + S * B \<le> (c + k) * U + S * U" by (rule add_mono)
  then have le: "(r + S) * B \<le> (c + k + S) * U" by (simp only: add_mult_distrib)
  have "((r + S) * U ^ n) * B = ((r + S) * B) * U ^ n" by (simp only: mult_ac)
  also have "\<dots> \<le> ((c + k + S) * U) * U ^ n" using le by (rule mult_le_mono1)
  also have "\<dots> = (c + k + S) * U ^ Suc n" by (simp add: mult_ac)
  also have "\<dots> < T * B ^ Suc n" by (rule bound)
  also have "\<dots> = (T * B ^ n) * B" by (simp add: mult_ac)
  finally have next_bound: "(r + S) * U ^ n < T * B ^ n" using Bpos by simp
  have "B ^ n \<le> U ^ n" using BU by (rule power_mono) simp
  then have "r * B ^ n \<le> r * U ^ n" by (rule mult_le_mono2)
  also have "\<dots> \<le> (r + S) * U ^ n" by (simp add: add_mult_distrib)
  also have "\<dots> < T * B ^ n" by (rule next_bound)
  finally have "r < T" by simp
  then have "Finite False c + f x = Finite False r"
    by (simp add: fx r_def pack_def T_def)
  moreover have "isFinite (reduce (\<lambda>acc x. acc + f x) (Finite False r) xs)"
    using rest next_bound
    by (intro Cons.IH) (simp_all add: S_def n_def B_def U_def T_def)
  ultimately show ?case by simp
qed

lemma lit_scaled:
  assumes "m < 2 ^ 53" and "j \<le> 971" shows "lit (m * 2 ^ j) 1 = dbl False m (j + 1074)"
proof -
  have "m * 2 ^ j * 2 ^ 1074 = m * 2 ^ (j + 1074)" by (simp only: power_add mult.assoc)
  then have "round_units (m * 2 ^ j * 2 ^ 1074) 1 = round_units m 1 * 2 ^ (j + 1074)"
    by (simp only: round_units_scale)
  also have "round_units m 1 = m" using assms(1) by (rule round_units_small)
  finally have "lit (m * 2 ^ j) 1 = pack False (m * 2 ^ (j + 1074))" by (simp only: lit_def)
  also have "\<dots> = dbl False m (j + 1074)"
    using assms by (intro pack_dbl [where w = 53]) simp_all
  finally show ?thesis .
qed

lemma plus_dbl_cancel: "s \<noteq> t \<Longrightarrow> dbl s m j + dbl t m j = 0"
  by (simp add: dbl_def zero_number_def)

lemma plus_zero_dbl:
  assumes "m < 2 ^ 53" and "53 + j \<le> 2098" shows "0 + dbl False m j = dbl False m j"
  unfolding zero_dbl [of j]
  using assms by (intro plus_dbl [where w = 53]) (simp_all add: round_units_small_Suc)

lemma two_sum_cancellation:
  "AreaCalculator_sum \<lparr>shapes = [Triangle (lit 2 1) (lit 9007199254740992 1),
        Triangle (lit 2 1) (lit 1 1), Triangle (dbl True 2 1074) (lit 9007199254740992 1)]\<rparr> = 0
   \<and> AreaCalculator_sum \<lparr>shapes = [Triangle (lit 2 1) (lit 9007199254740992 1),
        Triangle (dbl True 2 1074) (lit 9007199254740992 1), Triangle (lit 2 1) (lit 1 1)]\<rparr> = lit 1 1"
proof -
  have l1: "lit 1 1 = dbl False 1 1074" by (rule lit_integer) simp
  have l2: "lit 2 1 = dbl False 2 1074" by (rule lit_integer) simp
  have "lit (1 * 2 ^ 53) 1 = dbl False 1 (53 + 1074)" by (rule lit_scaled) simp_all
  then have l53: "lit 9007199254740992 1 = dbl False 1 1127" by simp
  have h2: "lit 5 10 * lit 2 1 = dbl False 2 1073"
    unfolding lit_half l2 by (rule times_dbl [where w = 53]) (simp_all add: round_units_small_Suc)
  have hm2: "lit 5 10 * dbl True 2 1074 = dbl True 2 1073"
    unfolding lit_half by (rule times_dbl [where w = 53]) (simp_all add: round_units_small_Suc)
  have big: "lit 5 10 * lit 2 1 * lit 9007199254740992 1 = dbl False 2 1126"
    unfolding h2 l53 by (rule times_dbl [where w = 53]) (simp_all add: round_units_small_Suc)
  have one: "lit 5 10 * lit 2 1 * lit 1 1 = dbl False 2 1073"
    unfolding h2 l1 by (rule times_dbl [where w = 53]) (simp_all add: round_units_small_Suc)
  have neg: "lit 5 10 * dbl True 2 1074 * lit 9007199254740992 1 = dbl True 2 1126"
    unfolding hm2 l53 by (rule times_dbl [where w = 53]) (simp_all add: round_units_small_Suc)
  have a1: "0 + dbl False 2 1126 = dbl False 2 1126" by (rule plus_zero_dbl) simp_all
  have a2: "dbl False 2 1126 + dbl False 2 1073 = dbl False 18014398509481984 1073"
    by (rule plus_dbl [where w = 55])
       (simp_all add: round_units_numeral_Suc [where sh = 2] round_half_even_def)
  have n: "dbl False 18014398509481984 1073 = dbl False 2 1126" by (simp add: dbl_def)
  have a3: "dbl False 2 1126 + dbl True 2 1126 = 0" by (rule plus_dbl_cancel) simp
  have a4: "0 + dbl False 2 1073 = dbl False 2 1073" by (rule plus_zero_dbl) simp_all
  have n1: "dbl False 2 1073 = dbl False 1 1074" by (simp add: dbl_def)
  have s1: "AreaCalculator_sum \<lparr>shapes = [Triangle (lit 2 1) (lit 9007199254740992 1),
        Triangle (lit 2 1) (lit 1 1), Triangle (dbl True 2 1074) (lit 9007199254740992 1)]\<rparr> = 0"
    by (simp only: AreaCalculator_sum_def AreaCalculator.simps reduce.simps area.simps
          big one neg a1 a2 n a3)
  have s2: "AreaCalculator_sum \<lparr>shapes = [Triangle (lit 2 1) (lit 9007199254740992 1),
        Triangle (dbl True 2 1074) (lit 9007199254740992 1), Triangle (lit 2 1) (lit 1 1)]\<rparr>
        = dbl False 2 1073"
    by (simp only: AreaCalculator_sum_def AreaCalculator.simps reduce.simps area.simps
          big one neg a1 a3 a4)
  have "dbl False 2 1073 = lit 1 1" by (simp only: n1 l1)
  with s1 s2 show ?thesis by (simp only:)
qed

lemma three_circles:
  "AreaCalculator_sum \<lparr>shapes = [Circle (lit 1 1), Circle (lit 2 1), Circle (lit 3 1)]\<rparr>
     = Finite False (6189958033024885 * 2 ^ 1027)
   \<and> AreaCalculator_sum \<lparr>shapes = [Circle (lit 2 1), Circle (lit 3 1), Circle (lit 1 1)]\<rparr>
     = Finite False (6189958033024886 * 2 ^ 1027)"
proof -
  have l1: "lit 1 1 = dbl False 1 1074" by (rule lit_integer) simp
  have l2: "lit 2 1 = dbl False 2 1074" by (rule lit_integer) simp
  have l3: "lit 3 1 = dbl False 3 1074" by (rule lit_integer) simp
  have p1: "PI * lit 1 1 = dbl False 884279719003555 1026"
    unfolding PI_dbl l1 by (rule times_dbl [where w = 53]) (simp_all add: round_units_small_Suc)
  have c1: "PI * lit 1 1 * lit 1 1 = dbl False 884279719003555 1026"
    unfolding p1 unfolding l1 by (rule times_dbl [where w = 53]) (simp_all add: round_units_small_Suc)
  have p2: "PI * lit 2 1 = dbl False 1768559438007110 1026"
    unfolding PI_dbl l2 by (rule times_dbl [where w = 53]) (simp_all add: round_units_small_Suc)
  have c2: "PI * lit 2 1 * lit 2 1 = dbl False 3537118876014220 1026"
    unfolding p2 unfolding l2 by (rule times_dbl [where w = 53]) (simp_all add: round_units_small_Suc)
  have p3: "PI * lit 3 1 = dbl False 2652839157010665 1026"
    unfolding PI_dbl l3 by (rule times_dbl [where w = 53]) (simp_all add: round_units_small_Suc)
  have c3: "PI * lit 3 1 * lit 3 1 = dbl False 7958517471031995 1026"
    unfolding p3 unfolding l3 by (rule times_dbl [where w = 53]) (simp_all add: round_units_small_Suc)
  have a1: "0 + dbl False 884279719003555 1026 = dbl False 884279719003555 1026"
    by (rule plus_zero_dbl) simp_all
  have a2: "dbl False 884279719003555 1026 + dbl False 3537118876014220 1026
            = dbl False 4421398595017775 1026"
    by (rule plus_dbl [where w = 53]) (simp_all add: round_units_small_Suc)
  have a3: "dbl False 4421398595017775 1026 + dbl False 7958517471031995 1026
            = dbl False 12379916066049770 1026"
    by (rule plus_dbl [where w = 54])
       (simp_all add: round_units_numeral_Suc [where sh = 1] round_half_even_def)
  have b1: "0 + dbl False 3537118876014220 1026 = dbl False 3537118876014220 1026"
    by (rule plus_zero_dbl) simp_all
  have b2: "dbl False 3537118876014220 1026 + dbl False 7958517471031995 1026
            = dbl False 11495636347046216 1026"
    by (rule plus_dbl [where w = 54])
       (simp_all add: round_units_numeral_Suc [where sh = 1] round_half_even_def)
  have b3: "dbl False 11495636347046216 1026 + dbl False 884279719003555 1026
            = dbl False 12379916066049772 1026"
    by (rule plus_dbl [where w = 54])
       (simp_all add: round_units_numeral_Suc [where sh = 1] round_half_even_def)
  have na: "dbl False 12379916066049770 1026 = Finite False (6189958033024885 * 2 ^ 1027)"
    by (simp add: dbl_def)
  have nb: "dbl False 12379916066049772 1026 = Finite False (6189958033024886 * 2 ^ 1027)"
    by (simp add: dbl_def)
  show ?thesis
    by (simp only: AreaCalculator_sum_def AreaCalculator.simps reduce.simps area.simps
          c1 c2 c3 a1 a2 a3 b1 b2 b3 na nb)
qed

subsection \<open>Evaluating Number::toString\<close>

lemma round_units_scale_div:
  assumes "2 ^ 52 \<le> N div d"
  shows "round_units (N * 2 ^ j) d = round_units N d * 2 ^ j"
proof -
  define q where "q = N div d"
  have dpos: "0 < d" using assms by (cases "d = 0") simp_all
  have qpos: "0 < q" using assms unfolding q_def
    by (metis less_le_trans zero_less_numeral zero_less_power)
  obtain w where w: "bit_length q = Suc w"
    using bit_length_gt0 [OF qpos] by (cases "bit_length q") simp_all
  have "(2::nat) ^ 52 < 2 ^ bit_length q"
    using assms bit_length_less [of q] unfolding q_def by linarith
  then have "(2::nat) ^ 52 < 2 ^ Suc w" by (simp only: w)
  then have "52 < Suc w" by (simp only: power_strict_increasing_iff rel_simps)
  then have w52: "52 \<le> w" by simp
  have lo: "2 ^ w \<le> q" using bit_length_ge [OF qpos] w by simp
  have hi: "Suc q \<le> 2 ^ Suc w" using bit_length_less [of q] w by simp
  have "q * d \<le> N" unfolding q_def by simp
  then have "q * d * 2 ^ j \<le> N * 2 ^ j" by (rule mult_le_mono1)
  then have "(q * 2 ^ j) * d \<le> N * 2 ^ j" by (simp only: mult_ac)
  then have ge: "q * 2 ^ j \<le> (N * 2 ^ j) div d"
    using dpos by (simp add: less_eq_div_iff_mult_less_eq)
  have "N < Suc q * d" unfolding q_def using dpos
    by (metis dividend_less_div_times add.commute mult_Suc)
  then have "N * 2 ^ j < Suc q * d * 2 ^ j" by simp
  then have "N * 2 ^ j < (Suc q * 2 ^ j) * d" by (simp only: mult_ac)
  then have lt: "(N * 2 ^ j) div d < Suc q * 2 ^ j"
    using dpos by (simp add: div_less_iff_less_mult)
  have a: "2 ^ (w + j) \<le> (N * 2 ^ j) div d"
  proof -
    have "(2::nat) ^ (w + j) = 2 ^ w * 2 ^ j" by (rule power_add)
    also have "\<dots> \<le> q * 2 ^ j" using lo by (rule mult_le_mono1)
    finally show ?thesis using ge by linarith
  qed
  have b: "(N * 2 ^ j) div d < 2 ^ Suc (w + j)"
  proof -
    have "Suc q * 2 ^ j \<le> 2 ^ Suc w * 2 ^ j" using hi by (rule mult_le_mono1)
    also have "\<dots> = 2 ^ Suc (w + j)" by (simp add: power_add)
    finally show ?thesis using lt by linarith
  qed
  have bl: "bit_length ((N * 2 ^ j) div d) = Suc (w + j)" using a b by (rule bit_length_eqI)
  have sh: "Suc (w + j) - 53 = (Suc w - 53) + j" using w52 by simp
  have "round_half_even (N * 2 ^ j) ((d * 2 ^ (Suc w - 53)) * 2 ^ j)
        = round_half_even N (d * 2 ^ (Suc w - 53))"
    by (rule round_half_even_scale) simp
  then have "round_half_even (N * 2 ^ j) (d * 2 ^ ((Suc w - 53) + j))
        = round_half_even N (d * 2 ^ (Suc w - 53))"
    by (simp only: power_add mult.assoc)
  then show ?thesis
    by (simp only: round_units_def Let_def bl sh w [unfolded q_def] power_add mult.assoc)
qed

lemma round_units_rational:
  assumes "2 ^ 52 \<le> N div d" and "N div d < 2 ^ 53"
  shows "round_units N d = round_half_even N d"
proof -
  have "bit_length (N div d) = Suc 52" using assms by (intro bit_length_eqI) simp_all
  then show ?thesis by (simp add: round_units_def)
qed

lemma decimal_exponent_scaled:
  assumes "j \<le> 1074" and "2 ^ (1074 - j) \<le> m"
  shows "decimal_exponent (m * 2 ^ j) = int (digits10 (m div 2 ^ (1074 - j)))"
proof -
  have p: "(2::nat) ^ 1074 = 2 ^ (1074 - j) * 2 ^ j"
    using assms(1) by (simp add: power_add [symmetric])
  have "2 ^ (1074 - j) * 2 ^ j \<le> m * 2 ^ j" using assms(2) by (rule mult_le_mono1)
  then have ge: "2 ^ 1074 \<le> m * 2 ^ j" by (simp only: p)
  have "(m * 2 ^ j) div (2 ^ (1074 - j) * 2 ^ j) = m div 2 ^ (1074 - j)" by simp
  then have "(m * 2 ^ j) div 2 ^ 1074 = m div 2 ^ (1074 - j)" by (simp only: p)
  with ge show ?thesis by (simp only: decimal_exponent_def if_True)
qed

lemma scaled_floor_neg:
  assumes "j \<le> 1074" and "e = - int a" and "0 < a"
  shows "scaled_floor (m * 2 ^ j) e = (m * 10 ^ a) div 2 ^ (1074 - j)"
proof -
  have p: "(2::nat) ^ 1074 = 2 ^ (1074 - j) * 2 ^ j"
    using assms(1) by (simp add: power_add [symmetric])
  have "(m * 2 ^ j * 10 ^ a) div (2 ^ (1074 - j) * 2 ^ j) = ((m * 10 ^ a) * 2 ^ j) div (2 ^ (1074 - j) * 2 ^ j)"
    by (simp only: mult_ac)
  also have "\<dots> = (m * 10 ^ a) div 2 ^ (1074 - j)" by simp
  finally have "(m * 2 ^ j * 10 ^ a) div 2 ^ 1074 = (m * 10 ^ a) div 2 ^ (1074 - j)"
    by (simp only: p)
  moreover have "\<not> 0 \<le> e" and "nat (- e) = a" using assms(2,3) by simp_all
  ultimately show ?thesis by (simp only: scaled_floor_def if_False)
qed

lemma scaled_floor_pos:
  assumes "j \<le> 1074" and "e = int a"
  shows "scaled_floor (m * 2 ^ j) e = m div (2 ^ (1074 - j) * 10 ^ a)"
proof -
  have p: "(2::nat) ^ 1074 = 2 ^ (1074 - j) * 2 ^ j"
    using assms(1) by (simp add: power_add [symmetric])
  have "(m * 2 ^ j) div ((2 ^ (1074 - j) * 10 ^ a) * 2 ^ j) = m div (2 ^ (1074 - j) * 10 ^ a)"
    by simp
  then have "(m * 2 ^ j) div (2 ^ 1074 * 10 ^ a) = m div (2 ^ (1074 - j) * 10 ^ a)"
    by (simp only: p mult_ac)
  moreover have "0 \<le> e" and "nat e = a" using assms(2) by simp_all
  ultimately show ?thesis by (simp only: scaled_floor_def if_True)
qed

lemma decimal_units_neg:
  assumes "j \<le> 1074" and "e = - int a" and "0 < a"
    and "2 ^ 52 \<le> (s * 2 ^ (1074 - j)) div 10 ^ a" and "(s * 2 ^ (1074 - j)) div 10 ^ a < 2 ^ 53"
  shows "decimal_units s e = round_half_even (s * 2 ^ (1074 - j)) (10 ^ a) * 2 ^ j"
proof -
  have p: "(2::nat) ^ 1074 = 2 ^ (1074 - j) * 2 ^ j"
    using assms(1) by (simp add: power_add [symmetric])
  have "\<not> 0 \<le> e" and "nat (- e) = a" using assms(2,3) by simp_all
  then have "decimal_units s e = round_units (s * 2 ^ 1074) (10 ^ a)"
    by (simp only: decimal_units_def if_False)
  also have "s * 2 ^ 1074 = (s * 2 ^ (1074 - j)) * 2 ^ j" by (simp only: p mult.assoc)
  also have "round_units ((s * 2 ^ (1074 - j)) * 2 ^ j) (10 ^ a)
             = round_units (s * 2 ^ (1074 - j)) (10 ^ a) * 2 ^ j"
    using assms(4) by (rule round_units_scale_div)
  also have "round_units (s * 2 ^ (1074 - j)) (10 ^ a) = round_half_even (s * 2 ^ (1074 - j)) (10 ^ a)"
    using assms(4,5) by (rule round_units_rational)
  finally show ?thesis .
qed

lemma decimal_units_pos:
  assumes "j \<le> 1074" and "e = int a" and "s * 10 ^ a < 2 ^ 53"
  shows "decimal_units s e = (s * 10 ^ a * 2 ^ (1074 - j)) * 2 ^ j"
proof -
  have p: "(2::nat) ^ 1074 = 2 ^ (1074 - j) * 2 ^ j"
    using assms(1) by (simp add: power_add [symmetric])
  have "0 \<le> e" and "nat e = a" using assms(2) by simp_all
  then have "decimal_units s e = round_units (s * 10 ^ a * 2 ^ 1074) 1"
    by (simp only: decimal_units_def if_True)
  also have "\<dots> = round_units (s * 10 ^ a) 1 * 2 ^ 1074" by (rule round_units_scale)
  also have "round_units (s * 10 ^ a) 1 = s * 10 ^ a" using assms(3) by (rule round_units_small)
  finally show ?thesis by (simp only: p mult.assoc)
qed

lemma shortest_fail:
  assumes "fuel = Suc f" and "k' = Suc k" and "e = n - int k" and "scaled_floor p e = lo"
    and "decimal_units lo e = x * 2 ^ j" and "decimal_units (lo + 1) e = y * 2 ^ j"
    and "p = m * 2 ^ j" and "x \<noteq> m" and "y \<noteq> m"
  shows "shortest fuel p n k = shortest f p n k'"
proof -
  have "decimal_units lo e \<noteq> p" and "decimal_units (lo + 1) e \<noteq> p"
    using assms(5-9) by simp_all
  then show ?thesis
    by (simp add: assms(1,2) assms(3) [symmetric] assms(4) Let_def)
qed

lemma shortest_lower:
  assumes "fuel = Suc f" and "e = n - int k" and "scaled_floor p e = lo"
    and "decimal_units lo e = m * 2 ^ j" and "decimal_units (lo + 1) e = y * 2 ^ j"
    and "p = m * 2 ^ j" and "y \<noteq> m"
  shows "shortest fuel p n k = (lo, e)"
proof -
  have "decimal_units lo e = p" and "decimal_units (lo + 1) e \<noteq> p"
    using assms(4-7) by simp_all
  then show ?thesis
    by (simp add: assms(1) assms(2) [symmetric] assms(3) Let_def)
qed

lemma decimal_small: "n < 10 \<Longrightarrow> decimal n = [digit n]"
  by (subst decimal.simps) simp

lemma decimal_large: "10 \<le> n \<Longrightarrow> decimal n = decimal (n div 10) @ [digit (n mod 10)]"
  by (subst decimal.simps) simp

lemma digits10_small: "n < 10 \<Longrightarrow> digits10 n = 1"
  by (subst digits10.simps) simp

lemma digits10_large: "10 \<le> n \<Longrightarrow> digits10 n = Suc (digits10 (n div 10))"
  by (subst digits10.simps) simp

lemma Number_toString_positive:
  assumes "0 < p" and "shortest_decimal p = (s, e)" and "decimal s = ds"
    and "strip_zeros ds = ds'" and "e + int (length ds) = n"
  shows "Number_toString (Finite False p) = format_decimal ds' n"
  using assms by (simp add: Number_toString_def)

lemma decimal_7183185307179586: "decimal 7183185307179586 = ''7183185307179586''"
  by (simp add: decimal_large decimal_small digit_def)

lemma shortest_decimal_scenario:
  "shortest_decimal (5054717292616751 * 2 ^ 1028) = (7183185307179586, - 14)"
proof -
  define p :: nat where "p = 5054717292616751 * 2 ^ 1028"
  have n: "decimal_exponent p = 2"
    unfolding p_def
    by (subst decimal_exponent_scaled) (simp_all add: digits10_large digits10_small)
  have f1: "scaled_floor p 1 = 7"
    unfolding p_def by (subst scaled_floor_pos [where a = 1]) simp_all
  have l1: "decimal_units 7 1 = 4925812092436480 * 2 ^ 1028"
    by (subst decimal_units_pos [where a = 1 and j = 1028]) simp_all
  have h1: "decimal_units (7 + 1) 1 = 5629499534213120 * 2 ^ 1028"
    by (subst decimal_units_pos [where a = 1 and j = 1028]) simp_all
  have s1: "shortest 1075 p 2 1 = shortest 1074 p 2 2"
    by (rule shortest_fail [OF _ _ _ f1 l1 h1 p_def]) simp_all
  have f2: "scaled_floor p 0 = 71"
    unfolding p_def by (subst scaled_floor_pos [where a = 0]) simp_all
  have l2: "decimal_units 71 0 = 4996180836614144 * 2 ^ 1028"
    by (subst decimal_units_pos [where a = 0 and j = 1028]) simp_all
  have h2: "decimal_units (71 + 1) 0 = 5066549580791808 * 2 ^ 1028"
    by (subst decimal_units_pos [where a = 0 and j = 1028]) simp_all
  have s2: "shortest 1074 p 2 2 = shortest 1073 p 2 3"
    by (rule shortest_fail [OF _ _ _ f2 l2 h2 p_def]) simp_all
  have f3: "scaled_floor p (- 1) = 718"
    unfolding p_def by (subst scaled_floor_neg [where a = 1]) simp_all
  have l3: "decimal_units 718 (- 1) = 5052475831956275 * 2 ^ 1028"
    by (subst decimal_units_neg [where a = 1 and j = 1028]) (simp_all add: round_half_even_def)
  have h3: "decimal_units (718 + 1) (- 1) = 5059512706374042 * 2 ^ 1028"
    by (subst decimal_units_neg [where a = 1 and j = 1028]) (simp_all add: round_half_even_def)
  have s3: "shortest 1073 p 2 3 = shortest 1072 p 2 4"
    by (rule shortest_fail [OF _ _ _ f3 l3 h3 p_def]) simp_all
  have f4: "scaled_floor p (- 2) = 7183"
    unfolding p_def by (subst scaled_floor_neg [where a = 2]) simp_all
  have l4: "decimal_units 7183 (- 2) = 5054586894281605 * 2 ^ 1028"
    by (subst decimal_units_neg [where a = 2 and j = 1028]) (simp_all add: round_half_even_def)
  have h4: "decimal_units (7183 + 1) (- 2) = 5055290581723382 * 2 ^ 1028"
    by (subst decimal_units_neg [where a = 2 and j = 1028]) (simp_all add: round_half_even_def)
  have s4: "shortest 1072 p 2 4 = shortest 1071 p 2 5"
    by (rule shortest_fail [OF _ _ _ f4 l4 h4 p_def]) simp_all
  have f5: "scaled_floor p (- 3) = 71831"
    unfolding p_def by (subst scaled_floor_neg [where a = 3]) simp_all
  have l5: "decimal_units 71831 (- 3) = 5054657263025783 * 2 ^ 1028"
    by (subst decimal_units_neg [where a = 3 and j = 1028]) (simp_all add: round_half_even_def)
  have h5: "decimal_units (71831 + 1) (- 3) = 5054727631769960 * 2 ^ 1028"
    by (subst decimal_units_neg [where a = 3 and j = 1028]) (simp_all add: round_half_even_def)
  have s5: "shortest 1071 p 2 5 = shortest 1070 p 2 6"
    by (rule shortest_fail [OF _ _ _ f5 l5 h5 p_def]) simp_all
  have f6: "scaled_floor p (- 4) = 718318"
    unfolding p_def by (subst scaled_floor_neg [where a = 4]) simp_all
  have l6: "decimal_units 718318 (- 4) = 5054713558021125 * 2 ^ 1028"
    by (subst decimal_units_neg [where a = 4 and j = 1028]) (simp_all add: round_half_even_def)
  have h6: "decimal_units (718318 + 1) (- 4) = 5054720594895543 * 2 ^ 1028"
    by (subst decimal_units_neg [where a = 4 and j = 1028]) (simp_all add: round_half_even_def)
  have s6: "shortest 1070 p 2 6 = shortest 1069 p 2 7"
    by (rule shortest_fail [OF _ _ _ f6 l6 h6 p_def]) simp_all
  have f7: "scaled_floor p (- 5) = 7183185"
    unfolding p_def by (subst scaled_floor_neg [where a = 5]) simp_all
  have l7: "decimal_units 7183185 (- 5) = 5054717076458334 * 2 ^ 1028"
    by (subst decimal_units_neg [where a = 5 and j = 1028]) (simp_all add: round_half_even_def)
  have h7: "decimal_units (7183185 + 1) (- 5) = 5054717780145776 * 2 ^ 1028"
    by (subst decimal_units_neg [where a = 5 and j = 1028]) (simp_all add: round_half_even_def)
  have s7: "shortest 1069 p 2 7 = shortest 1068 p 2 8"
    by (rule shortest_fail [OF _ _ _ f7 l7 h7 p_def]) simp_all
  have f8: "scaled_floor p (- 6) = 71831853"
    unfolding p_def by (subst scaled_floor_neg [where a = 6]) simp_all
  have l8: "decimal_units 71831853 (- 6) = 5054717287564566 * 2 ^ 1028"
    by (subst decimal_units_neg [where a = 6 and j = 1028]) (simp_all add: round_half_even_def)
  have h8: "decimal_units (71831853 + 1) (- 6) = 5054717357933311 * 2 ^ 1028"
    by (subst decimal_units_neg [where a = 6 and j = 1028]) (simp_all add: round_half_even_def)
  have s8: "shortest 1068 p 2 8 = shortest 1067 p 2 9"
    by (rule shortest_fail [OF _ _ _ f8 l8 h8 p_def]) simp_all
  have f9: "scaled_floor p (- 7) = 718318530"
    unfolding p_def by (subst scaled_floor_neg [where a = 7]) simp_all
  have l9: "decimal_units 718318530 (- 7) = 5054717287564566 * 2 ^ 1028"
    by (subst decimal_units_neg [where a = 7 and j = 1028]) (simp_all add: round_half_even_def)
  have h9: "decimal_units (718318530 + 1) (- 7) = 5054717294601441 * 2 ^ 1028"
    by (subst decimal_units_neg [where a = 7 and j = 1028]) (simp_all add: round_half_even_def)
  have s9: "shortest 1067 p 2 9 = shortest 1066 p 2 10"
    by (rule shortest_fail [OF _ _ _ f9 l9 h9 p_def]) simp_all
  have f10: "scaled_floor p (- 8) = 7183185307"
    unfolding p_def by (subst scaled_floor_neg [where a = 8]) simp_all
  have l10: "decimal_units 7183185307 (- 8) = 5054717292490378 * 2 ^ 1028"
    by (subst decimal_units_neg [where a = 8 and j = 1028]) (simp_all add: round_half_even_def)
  have h10: "decimal_units (7183185307 + 1) (- 8) = 5054717293194066 * 2 ^ 1028"
    by (subst decimal_units_neg [where a = 8 and j = 1028]) (simp_all add: round_half_even_def)
  have s10: "shortest 1066 p 2 10 = shortest 1065 p 2 11"
    by (rule shortest_fail [OF _ _ _ f10 l10 h10 p_def]) simp_all
  have f11: "scaled_floor p (- 9) = 71831853071"
    unfolding p_def by (subst scaled_floor_neg [where a = 9]) simp_all
  have l11: "decimal_units 71831853071 (- 9) = 5054717292560747 * 2 ^ 1028"
    by (subst decimal_units_neg [where a = 9 and j = 1028]) (simp_all add: round_half_even_def)
  have h11: "decimal_units (71831853071 + 1) (- 9) = 5054717292631116 * 2 ^ 1028"
    by (subst decimal_units_neg [where a = 9 and j = 1028]) (simp_all add: round_half_even_def)
  have s11: "shortest 1065 p 2 11 = shortest 1064 p 2 12"
    by (rule shortest_fail [OF _ _ _ f11 l11 h11 p_def]) simp_all
  have f12: "scaled_floor p (- 10) = 718318530717"
    unfolding p_def by (subst scaled_floor_neg [where a = 10]) simp_all
  have l12: "decimal_units 718318530717 (- 10) = 5054717292610005 * 2 ^ 1028"
    by (subst decimal_units_neg [where a = 10 and j = 1028]) (simp_all add: round_half_even_def)
  have h12: "decimal_units (718318530717 + 1) (- 10) = 5054717292617042 * 2 ^ 1028"
    by (subst decimal_units_neg [where a = 10 and j = 1028]) (simp_all add: round_half_even_def)
  have s12: "shortest 1064 p 2 12 = shortest 1063 p 2 13"
    by (rule shortest_fail [OF _ _ _ f12 l12 h12 p_def]) simp_all
  have f13: "scaled_floor p (- 11) = 7183185307179"
    unfolding p_def by (subst scaled_floor_neg [where a = 11]) simp_all
  have l13: "decimal_units 7183185307179 (- 11) = 5054717292616338 * 2 ^ 1028"
    by (subst decimal_units_neg [where a = 11 and j = 1028]) (simp_all add: round_half_even_def)
  have h13: "decimal_units (7183185307179 + 1) (- 11) = 5054717292617042 * 2 ^ 1028"
    by (subst decimal_units_neg [where a = 11 and j = 1028]) (simp_all add: round_half_even_def)
  have s13: "shortest 1063 p 2 13 = shortest 1062 p 2 14"
    by (rule shortest_fail [OF _ _ _ f13 l13 h13 p_def]) simp_all
  have f14: "scaled_floor p (- 12) = 71831853071795"
    unfolding p_def by (subst scaled_floor_neg [where a = 12]) simp_all
  have l14: "decimal_units 71831853071795 (- 12) = 5054717292616690 * 2 ^ 1028"
    by (subst decimal_units_neg [where a = 12 and j = 1028]) (simp_all add: round_half_even_def)
  have h14: "decimal_units (71831853071795 + 1) (- 12) = 5054717292616761 * 2 ^ 1028"
    by (subst decimal_units_neg [where a = 12 and j = 1028]) (simp_all add: round_half_even_def)
  have s14: "shortest 1062 p 2 14 = shortest 1061 p 2 15"
    by (rule shortest_fail [OF _ _ _ f14 l14 h14 p_def]) simp_all
  have f15: "scaled_floor p (- 13) = 718318530717958"
    unfolding p_def by (subst scaled_floor_neg [where a = 13]) simp_all
  have l15: "decimal_units 718318530717958 (- 13) = 5054717292616747 * 2 ^ 1028"
    by (subst decimal_units_neg [where a = 13 and j = 1028]) (simp_all add: round_half_even_def)
  have h15: "decimal_units (718318530717958 + 1) (- 13) = 5054717292616754 * 2 ^ 1028"
    by (subst decimal_units_neg [where a = 13 and j = 1028]) (simp_all add: round_half_even_def)
  have s15: "shortest 1061 p 2 15 = shortest 1060 p 2 16"
    by (rule shortest_fail [OF _ _ _ f15 l15 h15 p_def]) simp_all
  have f16: "scaled_floor p (- 14) = 7183185307179586"
    unfolding p_def by (subst scaled_floor_neg [where a = 14]) simp_all
  have l16: "decimal_units 7183185307179586 (- 14) = 5054717292616751 * 2 ^ 1028"
    by (subst decimal_units_neg [where a = 14 and j = 1028]) (simp_all add: round_half_even_def)
  have h16: "decimal_units (7183185307179586 + 1) (- 14) = 5054717292616752 * 2 ^ 1028"
    by (subst decimal_units_neg [where a = 14 and j = 1028]) (simp_all add: round_half_even_def)
  have s16: "shortest 1060 p 2 16 = (7183185307179586, (- 14))"
    by (rule shortest_lower [OF _ _ f16 l16 h16 p_def]) simp_all
  have "shortest 1075 p 2 1 = (7183185307179586, - 14)"
    by (simp only: s1 s2 s3 s4 s5 s6 s7 s8 s9 s10 s11 s12 s13 s14 s15 s16)
  moreover have "nat (2 + 1073) = 1075" by simp
  ultimately have "shortest_decimal p = (7183185307179586, - 14)"
    by (simp only: shortest_decimal_def n)
  then show ?thesis by (simp only: p_def)
qed

lemma Number_toString_scenario:
  "Number_toString (Finite False (5054717292616751 * 2 ^ 1028)) = ''71.83185307179586''"
proof -
  have "Number_toString (Finite False (5054717292616751 * 2 ^ 1028))
        = format_decimal ''7183185307179586'' 2"
    by (rule Number_toString_positive [OF _ shortest_decimal_scenario decimal_7183185307179586])
       (simp_all add: strip_zeros_def)
  then show ?thesis by (simp add: format_decimal_def)
qed

subsection \<open>The serialised record\<close>

lemma JSON_stringify_totalArea:
  "JSON_stringify [(''totalArea'', x)] = totalArea_text (SerializeJSONNumber x)"
  by (simp add: JSON_stringify_def QuoteJSONString_def quote_char_def totalArea_text_def)

lemma totalArea_number_record_text: "totalArea_number_record (totalArea_text v) = json_number v"
  by (simp add: totalArea_number_record_def totalArea_text_def)

lemma json_number_null: "\<not> json_number ''null''"
  by (simp add: json_number_def is_digit_def)

lemma square_1e200: "lit (10 ^ 200) 1 * lit (10 ^ 200) 1 = Infinity False"
  using area_1e200 by (simp only: area.simps)

lemma scenario_sum:
  "0 + PI * lit 2 1 * lit 2 1 + lit 3 1 * lit 3 1 + PI * lit 4 1 * lit 4 1
     = Finite False (5054717292616751 * 2 ^ 1028)
   \<and> lit 4 1 * PI + lit 9 1 + lit 16 1 * PI = Finite False (5054717292616751 * 2 ^ 1028)
   \<and> lit 20 1 * PI + lit 9 1 = Finite False (5054717292616751 * 2 ^ 1028)"
proof -
  have l2: "lit 2 1 = dbl False 2 1074" by (rule lit_integer) simp
  have l3: "lit 3 1 = dbl False 3 1074" by (rule lit_integer) simp
  have l4: "lit 4 1 = dbl False 4 1074" by (rule lit_integer) simp
  have l9: "lit 9 1 = dbl False 9 1074" by (rule lit_integer) simp
  have l16: "lit 16 1 = dbl False 16 1074" by (rule lit_integer) simp
  have l20: "lit 20 1 = dbl False 20 1074" by (rule lit_integer) simp
  have c2a: "PI * lit 2 1 = dbl False 1768559438007110 1026"
    unfolding PI_dbl l2 by (rule times_dbl [where w = 53]) (simp_all add: round_units_small_Suc)
  have c2: "PI * lit 2 1 * lit 2 1 = dbl False 3537118876014220 1026"
    unfolding c2a unfolding l2 by (rule times_dbl [where w = 53]) (simp_all add: round_units_small_Suc)
  have c4a: "PI * lit 4 1 = dbl False 3537118876014220 1026"
    unfolding PI_dbl l4 by (rule times_dbl [where w = 53]) (simp_all add: round_units_small_Suc)
  have c4: "PI * lit 4 1 * lit 4 1 = dbl False 14148475504056880 1026"
    unfolding c4a unfolding l4
    by (rule times_dbl [where w = 54])
       (simp_all add: round_units_numeral_Suc [where sh = 1] round_half_even_def)
  have s3: "lit 3 1 * lit 3 1 = dbl False 9 1074"
    unfolding l3 by (rule times_dbl [where w = 53]) (simp_all add: round_units_small_Suc)
  have m4: "lit 4 1 * PI = dbl False 3537118876014220 1026"
    unfolding PI_dbl l4 by (rule times_dbl [where w = 53]) (simp_all add: round_units_small_Suc)
  have m16: "lit 16 1 * PI = dbl False 14148475504056880 1026"
    unfolding PI_dbl l16
    by (rule times_dbl [where w = 54])
       (simp_all add: round_units_numeral_Suc [where sh = 1] round_half_even_def)
  have m20: "lit 20 1 * PI = dbl False 17685594380071100 1026"
    unfolding PI_dbl l20
    by (rule times_dbl [where w = 54])
       (simp_all add: round_units_numeral_Suc [where sh = 1] round_half_even_def)
  have a1: "0 + dbl False 3537118876014220 1026 = dbl False 3537118876014220 1026"
    by (rule plus_zero_dbl) simp_all
  have a2: "dbl False 3537118876014220 1026 + dbl False 9 1074 = dbl False 6070393666410124 1026"
    by (rule plus_dbl [where w = 53]) (simp_all add: round_units_small_Suc)
  have a3: "dbl False 6070393666410124 1026 + dbl False 14148475504056880 1026
            = dbl False 20218869170467004 1026"
    by (rule plus_dbl [where w = 55])
       (simp_all add: round_units_numeral_Suc [where sh = 2] round_half_even_def)
  have a4: "dbl False 17685594380071100 1026 + dbl False 9 1074
            = dbl False 20218869170467004 1026"
    by (rule plus_dbl [where w = 55])
       (simp_all add: round_units_numeral_Suc [where sh = 2] round_half_even_def)
  have n: "dbl False 20218869170467004 1026 = Finite False (5054717292616751 * 2 ^ 1028)"
    by (simp add: dbl_def)
  have A: "0 + PI * lit 2 1 * lit 2 1 + lit 3 1 * lit 3 1 + PI * lit 4 1 * lit 4 1
     = Finite False (5054717292616751 * 2 ^ 1028)"
    by (simp only: c2 c4 s3 a1 a2 a3 n)
  have B: "lit 4 1 * PI + lit 9 1 + lit 16 1 * PI = Finite False (5054717292616751 * 2 ^ 1028)"
    by (simp only: m4 m16 l9 a2 a3 n)
  have C: "lit 20 1 * PI + lit 9 1 = Finite False (5054717292616751 * 2 ^ 1028)"
    by (simp only: m20 l9 a4 n)
  from A B C show ?thesis by (simp only: simp_thms)
qed

subsection \<open>Number::toString writes JSON numbers\<close>

lemma digits10_less: "n < 10 ^ digits10 n"
proof (induction n rule: digits10.induct)
  case (1 n)
  show ?case
  proof (cases "n < 10")
    case True
    then show ?thesis by (simp add: digits10_small)
  next
    case False
    with 1 have "n div 10 < 10 ^ digits10 (n div 10)" by simp
    then have "n < 10 * 10 ^ digits10 (n div 10)" by linarith
    with False show ?thesis by (simp add: digits10_large)
  qed
qed

lemma digits10_ge: "0 < n \<Longrightarrow> 10 ^ (digits10 n - 1) \<le> n"
proof (induction n rule: digits10.induct)
  case (1 n)
  show ?case
  proof (cases "n < 10")
    case True
    with 1(2) show ?thesis by (simp add: digits10_small)
  next
    case False
    then have pos: "0 < n div 10" by simp
    from False have e: "digits10 n = Suc (digits10 (n div 10))" by (simp add: digits10_large)
    from 1(1) [OF False pos] have ih: "10 ^ (digits10 (n div 10) - 1) \<le> n div 10" .
    have "0 < digits10 (n div 10)" by (subst digits10.simps) simp
    then have "digits10 (n div 10) = Suc (digits10 (n div 10) - 1)" by simp
    then have "(10::nat) ^ digits10 (n div 10) = 10 * 10 ^ (digits10 (n div 10) - 1)"
      by (metis power_Suc)
    with ih have "10 ^ digits10 (n div 10) \<le> n" by linarith
    then show ?thesis by (simp only: e diff_Suc_1)
  qed
qed

lemma digits10_pos: "0 < digits10 n"
  by (subst digits10.simps) simp

text \<open>On a grid of spacing \<open>10 ^ -1074\<close> or finer the scaled value is an integer.\<close>

lemma scaled_floor_exact:
  assumes "e \<le> - 1074"
  shows "scaled_floor p e = p * (5 ^ 1074 * 10 ^ (nat (- e) - 1074))"
proof -
  define a where "a = nat (- e) - 1074"
  have n: "nat (- e) = 1074 + a" using assms by (simp add: a_def)
  have "(10::nat) = 2 * 5" by simp
  then have "(10::nat) ^ 1074 = (2 * 5) ^ 1074" by (rule arg_cong)
  also have "\<dots> = 2 ^ 1074 * 5 ^ 1074" by (rule power_mult_distrib)
  finally have t: "(10::nat) ^ 1074 = 2 ^ 1074 * 5 ^ 1074" .
  have "p * 10 ^ (1074 + a) = p * (10 ^ 1074 * 10 ^ a)" by (simp only: power_add)
  also have "\<dots> = (p * (5 ^ 1074 * 10 ^ a)) * 2 ^ 1074" by (simp only: t mult_ac)
  finally have "(p * 10 ^ (1074 + a)) div 2 ^ 1074 = (p * (5 ^ 1074 * 10 ^ a)) * 2 ^ 1074 div 2 ^ 1074"
    by (rule arg_cong)
  also have "\<dots> = p * (5 ^ 1074 * 10 ^ a)" by (rule nonzero_mult_div_cancel_right) (rule power_not_zero, simp)
  finally have "(p * 10 ^ (1074 + a)) div 2 ^ 1074 = p * (5 ^ 1074 * 10 ^ a)" .
  moreover have "\<not> 0 \<le> e" using assms by simp
  ultimately have "scaled_floor p e = p * (5 ^ 1074 * 10 ^ a)"
    by (simp only: scaled_floor_def if_False n)
  then show ?thesis by (simp only: a_def)
qed

lemma scaled_floor_positive:
  assumes "0 < p" and "e \<le> - 1074" shows "0 < scaled_floor p e"
proof -
  have "0 < (5::nat) ^ 1074 * 10 ^ (nat (- e) - 1074)"
    by (intro mult_pos_pos zero_less_power) simp_all
  with assms(1) have "0 < p * (5 ^ 1074 * 10 ^ (nat (- e) - 1074))" by (rule mult_pos_pos)
  then show ?thesis by (simp only: scaled_floor_exact [OF assms(2)])
qed

lemma search_end: "n - int (1 + nat (n + 1073)) \<le> - 1074"
  by simp

lemma decimal_units_zero [simp]: "decimal_units 0 e = 0"
  by (simp add: decimal_units_def)

lemma shortest_positive:
  assumes "0 < p" and "0 < scaled_floor p (n - int (k + fuel))"
  shows "0 < fst (shortest fuel p n k)"
  using assms(2)
proof (induction fuel arbitrary: k)
  case 0
  then show ?case by simp
next
  case (Suc fuel)
  from Suc.prems have "0 < scaled_floor p (n - int (Suc k + fuel))" by simp
  then have ih: "0 < fst (shortest fuel p n (Suc k))" by (rule Suc.IH)
  have "scaled_floor p (n - int k) \<noteq> 0" if "decimal_units (scaled_floor p (n - int k)) (n - int k) = p"
    using that assms(1) by (cases "scaled_floor p (n - int k) = 0") simp_all
  with ih show ?case by (auto simp add: Let_def)
qed

lemma shortest_decimal_positive: "0 < p \<Longrightarrow> 0 < fst (shortest_decimal p)"
  unfolding shortest_decimal_def
  by (rule shortest_positive) (simp_all only: scaled_floor_positive search_end)

lemma is_digit_digit: "is_digit (digit d)"
proof -
  have "d mod 10 < length ''0123456789''" by simp
  then have "''0123456789'' ! (d mod 10) \<in> set ''0123456789''" by (rule nth_mem)
  then show ?thesis by (simp only: is_digit_def digit_def)
qed

lemma digit_nonzero: "0 < d \<Longrightarrow> d < 10 \<Longrightarrow> digit d \<noteq> CHR ''0''"
proof -
  assume "0 < d" and "d < 10"
  then have "d = 1 \<or> d = 2 \<or> d = 3 \<or> d = 4 \<or> d = 5 \<or> d = 6 \<or> d = 7 \<or> d = 8 \<or> d = 9"
    by linarith
  then show ?thesis by (auto simp add: digit_def)
qed

lemma decimal_not_Nil: "decimal n \<noteq> []"
  by (subst decimal.simps) simp

lemma decimal_digits: "list_all is_digit (decimal n)"
proof (induction n rule: decimal.induct)
  case (1 n)
  show ?case
  proof (cases "n < 10")
    case True
    then show ?thesis by (simp add: decimal_small is_digit_digit)
  next
    case False
    with 1 show ?thesis by (simp add: decimal_large is_digit_digit)
  qed
qed

lemma decimal_hd: "0 < n \<Longrightarrow> hd (decimal n) \<noteq> CHR ''0''"
proof (induction n rule: decimal.induct)
  case (1 n)
  show ?case
  proof (cases "n < 10")
    case True
    with 1(2) show ?thesis by (simp add: decimal_small digit_nonzero)
  next
    case False
    then have "0 < n div 10" by simp
    with 1(1) False have "hd (decimal (n div 10)) \<noteq> CHR ''0''" by simp
    with False show ?thesis by (simp add: decimal_large decimal_not_Nil)
  qed
qed

lemma strip_zeros_snoc:
  "strip_zeros (xs @ [x]) = (if x = CHR ''0'' then strip_zeros xs else xs @ [x])"
  by (simp add: strip_zeros_def)

lemma strip_zeros_Nil [simp]: "strip_zeros [] = []"
  by (simp add: strip_zeros_def)

lemma strip_zeros_digits: "list_all is_digit ds \<Longrightarrow> list_all is_digit (strip_zeros ds)"
  by (induction ds rule: rev_induct) (simp_all add: strip_zeros_snoc)

lemma strip_zeros_hd:
  "ds \<noteq> [] \<Longrightarrow> hd ds \<noteq> CHR ''0''
   \<Longrightarrow> strip_zeros ds \<noteq> [] \<and> hd (strip_zeros ds) \<noteq> CHR ''0''"
proof (induction ds rule: rev_induct)
  case Nil
  then show ?case by simp
next
  case (snoc x xs)
  show ?case
  proof (cases "x = CHR ''0''")
    case False
    with snoc.prems show ?thesis by (simp add: strip_zeros_snoc)
  next
    case True
    with snoc.prems have "xs \<noteq> []" by (cases xs) simp_all
    moreover with snoc.prems have "hd xs \<noteq> CHR ''0''" by (cases xs) simp_all
    ultimately show ?thesis using snoc.IH True by (simp add: strip_zeros_snoc)
  qed
qed

lemma takeWhile_digits_all: "list_all is_digit ds \<Longrightarrow> takeWhile is_digit ds = ds"
  by (simp add: list_all_iff)

lemma dropWhile_digits_all: "list_all is_digit ds \<Longrightarrow> dropWhile is_digit ds = []"
  by (simp add: list_all_iff)

lemma takeWhile_digits_stop:
  "list_all is_digit ds \<Longrightarrow> \<not> is_digit c \<Longrightarrow> takeWhile is_digit (ds @ c # r) = ds"
  by (simp add: list_all_iff takeWhile_append2)

lemma dropWhile_digits_stop:
  "list_all is_digit ds \<Longrightarrow> \<not> is_digit c \<Longrightarrow> dropWhile is_digit (ds @ c # r) = c # r"
  by (simp add: list_all_iff dropWhile_append2)

lemma not_digit [simp]:
  "\<not> is_digit CHR ''.''" "\<not> is_digit CHR ''e''" "\<not> is_digit CHR ''+''" "\<not> is_digit CHR ''-''"
  by (simp_all add: is_digit_def)

lemma is_digit_zero [simp]: "is_digit CHR ''0''"
  by (simp add: is_digit_def)

text \<open>The exponent part that Number::toString writes.\<close>

lemma json_exponent_written:
  "json_exponent (''e'' @ (if b then ''-'' else ''+'') @ decimal n)"
  by (simp add: json_exponent_def decimal_not_Nil decimal_digits)

lemma json_fraction_exponent:
  "json_fraction (''e'' @ (if b then ''-'' else ''+'') @ decimal n)"
  using json_exponent_written [of b n] by (simp add: json_fraction_def)

lemma json_number_parts:
  assumes "list_all is_digit ip" and "ip \<noteq> []" and "length ip = 1 \<or> hd ip \<noteq> CHR ''0''"
    and "rest = [] \<or> \<not> is_digit (hd rest)" and "json_fraction rest"
  shows "json_number (ip @ rest)"
proof -
  from assms(1,2) have h: "is_digit (hd ip)" by (cases ip) simp_all
  then have nm: "hd ip \<noteq> CHR ''-''" by auto
  from assms(2) nm have u: "(case ip @ rest of [] \<Rightarrow> [] | c # r \<Rightarrow> if c = CHR ''-'' then r else ip @ rest)
                  = ip @ rest"
    by (cases ip) simp_all
  have tw: "takeWhile is_digit (ip @ rest) = ip" and dw: "dropWhile is_digit (ip @ rest) = rest"
    using assms(1,4) by (cases rest; simp add: list_all_iff takeWhile_append2 dropWhile_append2)+
  show ?thesis
    using assms(2,3,5) by (simp only: json_number_def u Let_def tw dw simp_thms)
qed

lemma json_number_minus:
  assumes "json_number t" and "t \<noteq> []" and "hd t \<noteq> CHR ''-''"
  shows "json_number (''-'' @ t)"
proof -
  from assms(2,3) have "(case t of [] \<Rightarrow> [] | c # r \<Rightarrow> if c = CHR ''-'' then r else t) = t"
    by (cases t) simp_all
  with assms(1) show ?thesis by (simp add: json_number_def)
qed

lemma json_fraction_digits:
  "list_all is_digit fs \<Longrightarrow> fs \<noteq> [] \<Longrightarrow> json_fraction (''.'' @ fs)"
  by (simp add: json_fraction_def takeWhile_digits_all dropWhile_digits_all json_exponent_def)

lemma json_fraction_digits_exponent:
  assumes "list_all is_digit fs" and "fs \<noteq> []"
  shows "json_fraction (''.'' @ fs @ ''e'' @ (if b then ''-'' else ''+'') @ decimal m)"
proof -
  have "takeWhile is_digit (fs @ CHR ''e'' # ((if b then ''-'' else ''+'') @ decimal m)) = fs"
    using assms(1) by (rule takeWhile_digits_stop) simp
  moreover have "dropWhile is_digit (fs @ CHR ''e'' # ((if b then ''-'' else ''+'') @ decimal m))
        = CHR ''e'' # ((if b then ''-'' else ''+'') @ decimal m)"
    using assms(1) by (rule dropWhile_digits_stop) simp
  ultimately show ?thesis
    using assms(2) json_exponent_written [of b m] by (simp add: json_fraction_def)
qed

lemma format_decimal_json:
  assumes D: "list_all is_digit ds" and ne: "ds \<noteq> []" and h: "hd ds \<noteq> CHR ''0''"
  shows "json_number (format_decimal ds n) \<and> format_decimal ds n \<noteq> []
         \<and> is_digit (hd (format_decimal ds n))"
proof -
  from D ne have hd: "is_digit (hd ds)" by (cases ds) simp_all
  consider (int) "0 < n" "n \<le> 21" "int (length ds) \<le> n"
    | (point) "0 < n" "n \<le> 21" "n < int (length ds)"
    | (small) "- 6 < n" "n \<le> 0"
    | (exp1) "\<not> (0 < n \<and> n \<le> 21)" "\<not> (- 6 < n \<and> n \<le> 0)" "length ds = 1"
    | (exp) "\<not> (0 < n \<and> n \<le> 21)" "\<not> (- 6 < n \<and> n \<le> 0)" "length ds \<noteq> 1"
    by linarith
  then show ?thesis
  proof cases
    case int
    define t where "t = ds @ replicate (nat (n - int (length ds))) CHR ''0''"
    have f: "format_decimal ds n = t @ []" using int by (simp add: format_decimal_def t_def)
    have "list_all is_digit t" using D by (auto simp add: t_def list_all_iff)
    moreover have "t \<noteq> []" using ne by (simp add: t_def)
    moreover have ht: "hd t = hd ds" using ne by (simp add: t_def)
    ultimately have "json_number (t @ [])"
      using h by (intro json_number_parts) (simp_all add: json_fraction_def)
    with f ht hd ne show ?thesis by (simp add: t_def)
  next
    case point
    define ip where "ip = take (nat n) ds"
    define fs where "fs = drop (nat n) ds"
    have f: "format_decimal ds n = ip @ (''.'' @ fs)"
      using point by (simp add: format_decimal_def ip_def fs_def)
    have ipne: "ip \<noteq> []" using point ne by (simp add: ip_def)
    have hip: "hd ip = hd ds" using point ne by (simp add: ip_def)
    have "list_all is_digit ip" using D by (auto simp add: ip_def list_all_iff dest: in_set_takeD)
    moreover have "list_all is_digit fs" using D by (auto simp add: fs_def list_all_iff dest: in_set_dropD)
    moreover have "fs \<noteq> []" using point by (simp add: fs_def)
    ultimately have "json_number (ip @ (''.'' @ fs))"
      using ipne hip h by (intro json_number_parts json_fraction_digits) simp_all
    with f hip hd ipne show ?thesis by simp
  next
    case small
    define fs where "fs = replicate (nat (- n)) CHR ''0'' @ ds"
    have f: "format_decimal ds n = ''0'' @ (''.'' @ fs)"
      using small by (simp add: format_decimal_def fs_def)
    have "list_all is_digit fs" using D by (auto simp add: fs_def list_all_iff)
    moreover have "fs \<noteq> []" using ne by (simp add: fs_def)
    ultimately have "json_number (''0'' @ (''.'' @ fs))"
      by (intro json_number_parts json_fraction_digits) simp_all
    with f show ?thesis by simp
  next
    case exp1
    have f: "format_decimal ds n
             = ds @ (''e'' @ (if n - 1 < 0 then ''-'' else ''+'') @ decimal (nat \<bar>n - 1\<bar>))"
    proof -
      have "format_decimal ds n
            = (let ex = (if n - 1 < 0 then ''-'' else ''+'') @ decimal (nat \<bar>n - 1\<bar>)
               in if int (length ds) = 1 then ds @ ''e'' @ ex
                  else take 1 ds @ ''.'' @ drop 1 ds @ ''e'' @ ex)"
        by (simp only: format_decimal_def Let_def exp1(1,2) if_False)
      then show ?thesis using exp1(3) by (simp add: Let_def)
    qed
    have "json_number (ds @ (''e'' @ (if n - 1 < 0 then ''-'' else ''+'') @ decimal (nat \<bar>n - 1\<bar>)))"
      using D ne exp1(3) by (intro json_number_parts json_fraction_exponent) simp_all
    with f hd ne show ?thesis by simp
  next
    case exp
    define ip where "ip = take 1 ds"
    define fs where "fs = drop 1 ds"
    have f: "format_decimal ds n
             = ip @ (''.'' @ fs @ ''e'' @ (if n - 1 < 0 then ''-'' else ''+'') @ decimal (nat \<bar>n - 1\<bar>))"
    proof -
      have "format_decimal ds n
            = (let ex = (if n - 1 < 0 then ''-'' else ''+'') @ decimal (nat \<bar>n - 1\<bar>)
               in if int (length ds) = 1 then ds @ ''e'' @ ex
                  else take 1 ds @ ''.'' @ drop 1 ds @ ''e'' @ ex)"
        by (simp only: format_decimal_def Let_def exp(1,2) if_False)
      then show ?thesis using exp(3) by (simp add: Let_def ip_def fs_def)
    qed
    have ipne: "ip \<noteq> []" using ne by (simp add: ip_def)
    have hip: "hd ip = hd ds" using ne by (cases ds) (simp_all add: ip_def)
    have lip: "length ip = 1" using ne by (cases ds) (simp_all add: ip_def)
    have "list_all is_digit ip" using D by (auto simp add: ip_def list_all_iff dest: in_set_takeD)
    moreover have "list_all is_digit fs" using D by (auto simp add: fs_def list_all_iff dest: in_set_dropD)
    moreover have "fs \<noteq> []" using exp(3) ne by (cases ds) (simp_all add: fs_def)
    ultimately have "json_number (ip @ (''.'' @ fs @ ''e'' @ (if n - 1 < 0 then ''-'' else ''+'')
          @ decimal (nat \<bar>n - 1\<bar>)))"
      using ipne lip by (intro json_number_parts json_fraction_digits_exponent) simp_all
    with f hip hd ipne show ?thesis by simp
  qed
qed

text \<open>Number::toString of a finite number is a text of the JSON grammar for numbers.\<close>

lemma Number_toString_json: "isFinite x \<Longrightarrow> json_number (Number_toString x)"
proof (cases x)
  case (Finite s p)
  show ?thesis
  proof (cases "p = 0")
    case True
    with Finite show ?thesis
      by (simp add: Number_toString_def json_number_def json_fraction_def is_digit_def)
  next
    case False
    obtain m e where me: "shortest_decimal p = (m, e)" by (cases "shortest_decimal p")
    from False have "0 < fst (shortest_decimal p)" by (intro shortest_decimal_positive) simp
    with me have m: "0 < m" by simp
    define ds where "ds = strip_zeros (decimal m)"
    define t where "t = format_decimal ds (e + int (length (decimal m)))"
    have "strip_zeros (decimal m) \<noteq> [] \<and> hd (strip_zeros (decimal m)) \<noteq> CHR ''0''"
      using decimal_not_Nil decimal_hd [OF m] by (rule strip_zeros_hd)
    then have "ds \<noteq> []" and "hd ds \<noteq> CHR ''0''" by (simp_all add: ds_def)
    moreover have "list_all is_digit ds"
      unfolding ds_def by (rule strip_zeros_digits) (rule decimal_digits)
    ultimately have j: "json_number t" and tne: "t \<noteq> []" and hd: "is_digit (hd t)"
      using format_decimal_json [of ds "e + int (length (decimal m))"] by (simp_all add: t_def)
    from hd have nm: "hd t \<noteq> CHR ''-''" by auto
    have n: "Number_toString x = (if s then ''-'' else []) @ t"
      using False me by (simp add: Finite Number_toString_def t_def ds_def Let_def)
    show ?thesis
    proof (cases s)
      case True
      with n json_number_minus [OF j tne nm] show ?thesis by simp
    next
      case False
      with n j show ?thesis by simp
    qed
  qed
qed simp_all

lemma plus_dbl_overflow:
  assumes "j \<le> j1" and "j \<le> j2"
    and "round_units (m1 * 2 ^ (j1 - j) + m2 * 2 ^ (j2 - j)) 1 = q" and "2 ^ w \<le> q"
    and "2098 \<le> w + j"
  shows "dbl s m1 j1 + dbl s m2 j2 = Infinity s"
  using assms(3-5) by (simp only: plus_dbl_units [OF assms(1,2)] pack_overflow)

text \<open>
  With positive dimensions too the order can decide between a finite sum and \<open>Infinity\<close>:
  triangles of base \<open>2\<close> and heights \<open>Number.MAX_VALUE\<close>, \<open>2 ^ 969\<close> and \<open>2 ^ 969\<close> sum to
  \<open>Number.MAX_VALUE\<close> in this order and to \<open>Infinity\<close> when the largest comes last.
\<close>

lemma sum_order_overflow:
  "AreaCalculator_sum \<lparr>shapes = [Triangle (lit 2 1) (lit (9007199254740991 * 2 ^ 971) 1),
        Triangle (lit 2 1) (lit (1 * 2 ^ 969) 1), Triangle (lit 2 1) (lit (1 * 2 ^ 969) 1)]\<rparr>
     = Finite False (9007199254740991 * 2 ^ 2045)
   \<and> AreaCalculator_sum \<lparr>shapes = [Triangle (lit 2 1) (lit (1 * 2 ^ 969) 1),
        Triangle (lit 2 1) (lit (1 * 2 ^ 969) 1),
        Triangle (lit 2 1) (lit (9007199254740991 * 2 ^ 971) 1)]\<rparr>
     = Infinity False"
proof -
  have l2: "lit 2 1 = dbl False 2 1074" by (rule lit_integer) simp
  have lmax: "lit (9007199254740991 * 2 ^ 971) 1 = dbl False 9007199254740991 (971 + 1074)"
    by (rule lit_scaled) simp_all
  have lt: "lit (1 * 2 ^ 969) 1 = dbl False 1 (969 + 1074)"
    by (rule lit_scaled) simp_all
  have h2: "lit 5 10 * lit 2 1 = dbl False 2 1073"
    unfolding lit_half l2 by (rule times_dbl [where w = 53]) (simp_all add: round_units_small_Suc)
  have amax': "lit 5 10 * lit 2 1 * lit (9007199254740991 * 2 ^ 971) 1
              = dbl False 18014398509481982 2044"
    unfolding h2 lmax
    by (rule times_dbl [where w = 54])
       (simp_all add: round_units_numeral_Suc [where sh = 1] round_half_even_def)
  have nmax: "dbl False 18014398509481982 2044 = dbl False 9007199254740991 2045"
    by (simp add: dbl_def)
  have at: "lit 5 10 * lit 2 1 * lit (1 * 2 ^ 969) 1 = dbl False 2 2042"
    unfolding h2 lt by (rule times_dbl [where w = 53]) (simp_all add: round_units_small_Suc)
  have a1: "0 + dbl False 9007199254740991 2045 = dbl False 9007199254740991 2045"
    by (rule plus_zero_dbl) simp_all
  have a2': "dbl False 9007199254740991 2045 + dbl False 2 2042 = dbl False 72057594037927928 2042"
    by (rule plus_dbl [where w = 56])
       (simp_all add: round_units_numeral_Suc [where sh = 3] round_half_even_def)
  have n2: "dbl False 72057594037927928 2042 = dbl False 9007199254740991 2045"
    by (simp add: dbl_def)
  have b1: "0 + dbl False 2 2042 = dbl False 2 2042" by (rule plus_zero_dbl) simp_all
  have b2: "dbl False 2 2042 + dbl False 2 2042 = dbl False 4 2042"
    by (rule plus_dbl [where w = 53]) (simp_all add: round_units_small_Suc)
  have b3: "dbl False 4 2042 + dbl False 9007199254740991 2045 = Infinity False"
    by (rule plus_dbl_overflow [where j = 2042 and w = 56 and q = 72057594037927936])
       (simp_all add: round_units_numeral_Suc [where sh = 3] round_half_even_def)
  have m: "dbl False 9007199254740991 2045 = Finite False (9007199254740991 * 2 ^ 2045)"
    by (simp only: dbl_def)
  have A: "AreaCalculator_sum \<lparr>shapes = [Triangle (lit 2 1) (lit (9007199254740991 * 2 ^ 971) 1),
        Triangle (lit 2 1) (lit (1 * 2 ^ 969) 1), Triangle (lit 2 1) (lit (1 * 2 ^ 969) 1)]\<rparr>
     = dbl False 9007199254740991 2045"
    by (simp only: AreaCalculator_sum_def AreaCalculator.simps reduce.simps area.simps
          amax' nmax at a1 a2' n2)
  have B: "AreaCalculator_sum \<lparr>shapes = [Triangle (lit 2 1) (lit (1 * 2 ^ 969) 1),
        Triangle (lit 2 1) (lit (1 * 2 ^ 969) 1),
        Triangle (lit 2 1) (lit (9007199254740991 * 2 ^ 971) 1)]\<rparr>
     = Infinity False"
    by (simp only: AreaCalculator_sum_def AreaCalculator.simps reduce.simps area.simps
          amax' nmax at b1 b2 b3)
  from A B show ?thesis by (simp only: m simp_thms)
qed

subsection \<open>The results of the operators are doubles\<close>

lemma round_units_pow:
  assumes "q \<le> 2 ^ 53" shows "round_units (q * 2 ^ j) 1 = q * 2 ^ j"
proof (cases "q < 2 ^ 53")
  case True
  have "round_units (q * 2 ^ j) 1 = round_units q 1 * 2 ^ j" by (rule round_units_scale)
  also have "round_units q 1 = q" using True by (rule round_units_small)
  finally show ?thesis .
next
  case False
  with assms have q: "q = 1 * 2 ^ 53" by simp
  have "round_units (1 * 2 ^ (53 + j)) 1 = round_units 1 1 * 2 ^ (53 + j)"
    by (rule round_units_scale)
  also have "round_units 1 1 = 1" by (rule round_units_small) simp
  finally have "round_units (1 * 2 ^ 53 * 2 ^ j) 1 = 1 * 2 ^ 53 * 2 ^ j"
    by (simp only: power_add mult.assoc)
  then show ?thesis by (simp only: q)
qed

lemma round_units_idem: "round_units (round_units n d) 1 = round_units n d"
proof -
  define b where "b = bit_length (n div d)"
  define sh where "sh = b - 53"
  define q where "q = round_half_even n (d * 2 ^ sh)"
  have r: "round_units n d = q * 2 ^ sh"
    by (simp only: round_units_def Let_def b_def sh_def q_def)
  have shb: "sh \<le> b" by (simp add: sh_def)
  have lt: "n div d < 2 ^ b" unfolding b_def by (rule bit_length_less)
  have split: "(2::nat) ^ b = 2 ^ (b - sh) * 2 ^ sh"
    using shb by (simp add: power_add [symmetric])
  have "n div (d * 2 ^ sh) = (n div d) div 2 ^ sh" by (simp add: div_mult2_eq)
  also have "\<dots> < 2 ^ (b - sh)"
    using lt unfolding split by (simp add: less_mult_imp_div_less)
  finally have "Suc (n div (d * 2 ^ sh)) \<le> 2 ^ (b - sh)" by simp
  with round_half_even_le_Suc_div [of n "d * 2 ^ sh"]
  have "q \<le> 2 ^ (b - sh)" unfolding q_def by (rule le_trans)
  also have "(2::nat) ^ (b - sh) \<le> 2 ^ 53" by (rule power_increasing) (simp_all add: sh_def)
  finally have "q \<le> 2 ^ 53" .
  then have "round_units (q * 2 ^ sh) 1 = q * 2 ^ sh" by (rule round_units_pow)
  then show ?thesis by (simp only: r)
qed

lemma is_double_pack: "is_double (pack s (round_units n d))"
proof (cases "round_units n d < 2 ^ 2098")
  case True
  then have "pack s (round_units n d) = Finite s (round_units n d)"
    by (simp only: pack_def if_True)
  with True show ?thesis by (simp only: is_double_def number.case round_units_idem simp_thms)
next
  case False
  then have "pack s (round_units n d) = Infinity s" by (simp only: pack_def if_False)
  then show ?thesis by (simp only: is_double_def number.case)
qed

lemma is_double_zero: "is_double (Finite s 0)"
  by (simp add: is_double_def)

lemma is_double_plus: "is_double (x + y)"
proof (cases x)
  case NaN
  then show ?thesis by (simp add: is_double_def)
next
  case (Infinity s)
  then show ?thesis by (cases y) (simp_all add: is_double_def)
next
  case (Finite s a)
  then show ?thesis
    by (cases y) (simp_all add: is_double_pack is_double_zero, simp_all add: is_double_def)
qed

lemma round_units_eq_0:
  assumes "round_units n 1 = 0" shows "n = 0"
proof -
  from round_units_error [of n] have "n * (2 ^ 53 - 1) \<le> round_units n 1 * 2 ^ 53" by simp
  with assms have "n * (2 ^ 53 - 1) = 0" by simp
  then show ?thesis by simp
qed

lemma pack_negative_zero:
  assumes "pack s (round_units n 1) = Finite True 0" shows "s \<and> n = 0"
proof (cases "round_units n 1 < 2 ^ 2098")
  case True
  then have "pack s (round_units n 1) = Finite s (round_units n 1)"
    by (simp only: pack_def if_True)
  with assms have "Finite s (round_units n 1) = Finite True 0" by (simp only:)
  then have s: "s" and "round_units n 1 = 0" by (simp_all only: number.inject simp_thms)
  from this(2) have "n = 0" by (rule round_units_eq_0)
  with s show ?thesis by (simp only: simp_thms)
next
  case False
  then have "pack s (round_units n 1) = Infinity s" by (simp only: pack_def if_False)
  with assms show ?thesis by (simp only: number.distinct)
qed

lemma plus_negative_zero:
  assumes "x + y = Finite True 0" shows "x = Finite True 0"
proof (cases x)
  case NaN
  with assms show ?thesis by simp
next
  case (Infinity s)
  with assms show ?thesis by (cases y) (simp_all split: if_splits)
next
  case x: (Finite s a)
  show ?thesis
  proof (cases y)
    case NaN
    with assms x show ?thesis by simp
  next
    case (Infinity t)
    with assms x show ?thesis by simp
  next
    case y: (Finite t b)
    show ?thesis
    proof (cases "s = t")
      case True
      with assms x y have "pack s (round_units (a + b) 1) = Finite True 0" by simp
      then have "s \<and> a + b = 0" by (rule pack_negative_zero)
      with x show ?thesis by simp
    next
      case False
      show ?thesis
      proof (cases "a = b")
        case True
        with assms x y False show ?thesis by simp
      next
        case ab: False
        show ?thesis
        proof (cases "b < a")
          case True
          with assms x y False ab have "pack s (round_units (a - b) 1) = Finite True 0" by simp
          then have "s \<and> a - b = 0" by (rule pack_negative_zero)
          with True show ?thesis by simp
        next
          case ba: False
          with assms x y False ab have "pack t (round_units (b - a) 1) = Finite True 0" by simp
          then have "t \<and> b - a = 0" by (rule pack_negative_zero)
          with ba ab show ?thesis by simp
        qed
      qed
    qed
  qed
qed

lemma reduce_plus_double:
  assumes "is_double acc" and "acc \<noteq> Finite True 0"
  shows "is_double (reduce (\<lambda>acc x. acc + f x) acc xs)
         \<and> reduce (\<lambda>acc x. acc + f x) acc xs \<noteq> Finite True 0"
  using assms
proof (induction xs arbitrary: acc)
  case Nil
  then show ?case by simp
next
  case (Cons x xs)
  have "is_double (acc + f x)" by (rule is_double_plus)
  moreover have "acc + f x \<noteq> Finite True 0"
    using Cons.prems(2) plus_negative_zero [of acc "f x"] by blast
  ultimately show ?case using Cons.IH [of "acc + f x"] by simp
qed

lemma srp_sum_double:
  "is_double (srp_AreaCalculator_sum this) \<and> srp_AreaCalculator_sum this \<noteq> Finite True 0"
  unfolding srp_AreaCalculator_sum_def zero_number_def
  by (rule reduce_plus_double) (simp_all add: is_double_zero)

subsection \<open>The decimal of Number::toString rounds to the number\<close>

lemma decimal_units_exact:
  assumes "e \<le> - 1074"
  shows "decimal_units (scaled_floor p e) e = round_units p 1"
proof -
  define a where "a = nat (- e) - 1074"
  have n: "nat (- e) = 1074 + a" using assms by (simp add: a_def)
  have ne: "\<not> 0 \<le> e" using assms by simp
  have "(10::nat) = 2 * 5" by simp
  then have "(10::nat) ^ 1074 = (2 * 5) ^ 1074" by (rule arg_cong)
  also have "\<dots> = 2 ^ 1074 * 5 ^ 1074" by (rule power_mult_distrib)
  finally have t: "(10::nat) ^ 1074 = 2 ^ 1074 * 5 ^ 1074" .
  have s: "scaled_floor p e = p * (5 ^ 1074 * 10 ^ a)"
    using scaled_floor_exact [OF assms] by (simp only: a_def)
  have "p * (5 ^ 1074 * 10 ^ a) * 2 ^ 1074 = p * ((2 ^ 1074 * 5 ^ 1074) * 10 ^ a)"
    by (simp only: mult_ac)
  also have "\<dots> = p * 10 ^ (1074 + a)" by (simp only: t [symmetric] power_add)
  finally have m: "p * (5 ^ 1074 * 10 ^ a) * 2 ^ 1074 = p * 10 ^ (1074 + a)" .
  have "decimal_units (scaled_floor p e) e = round_units (p * 10 ^ (1074 + a)) (10 ^ (1074 + a))"
    by (simp only: decimal_units_def ne if_False n s m)
  also have "\<dots> = round_units p 1" by (rule round_units_cancel) simp
  finally show ?thesis .
qed

lemma shortest_rounds:
  assumes "round_units p 1 = p" and "n - int (k + fuel) \<le> - 1074"
  shows "decimal_units (fst (shortest fuel p n k)) (snd (shortest fuel p n k)) = p"
  using assms(2)
proof (induction fuel arbitrary: k)
  case 0
  then have "n - int k \<le> - 1074" by simp
  then have "decimal_units (scaled_floor p (n - int k)) (n - int k) = round_units p 1"
    by (rule decimal_units_exact)
  with assms(1) show ?case by simp
next
  case (Suc fuel)
  from Suc.prems have "n - int (Suc k + fuel) \<le> - 1074" by simp
  then have "decimal_units (fst (shortest fuel p n (Suc k))) (snd (shortest fuel p n (Suc k))) = p"
    by (rule Suc.IH)
  then show ?case by (simp add: Let_def)
qed

lemma shortest_decimal_rounds:
  assumes "round_units p 1 = p" and "shortest_decimal p = (m, e)"
  shows "decimal_units m e = p"
proof -
  have "decimal_units (fst (shortest_decimal p)) (snd (shortest_decimal p)) = p"
    unfolding shortest_decimal_def using assms(1)
    by (rule shortest_rounds) (simp only: search_end)
  with assms(2) show ?thesis by simp
qed

subsection \<open>Reading digits\<close>

lemma digit_value_digit: "d < 10 \<Longrightarrow> digit_value (digit d) = d"
proof -
  assume "d < 10"
  show ?thesis
  proof (cases "d = 0")
    case True
    then show ?thesis by (simp add: digit_value_def digit_def)
  next
    case False
    then have "0 < d" by simp
    with \<open>d < 10\<close>
    have "d = 1 \<or> d = 2 \<or> d = 3 \<or> d = 4 \<or> d = 5 \<or> d = 6 \<or> d = 7 \<or> d = 8 \<or> d = 9"
      by linarith
    then show ?thesis by (auto simp add: digit_value_def digit_def)
  qed
qed

lemma digits_value_Nil [simp]: "digits_value [] = 0"
  by (simp add: digits_value_def)

lemma digits_value_snoc: "digits_value (xs @ [c]) = 10 * digits_value xs + digit_value c"
  by (simp add: digits_value_def)

lemma digits_value_append:
  "digits_value (xs @ ys) = digits_value xs * 10 ^ length ys + digits_value ys"
proof (induction ys rule: rev_induct)
  case Nil
  then show ?case by simp
next
  case (snoc y ys)
  have "digits_value (xs @ ys @ [y]) = 10 * digits_value (xs @ ys) + digit_value y"
    using digits_value_snoc [of "xs @ ys" y] by simp
  also have "\<dots> = 10 * (digits_value xs * 10 ^ length ys + digits_value ys) + digit_value y"
    by (simp only: snoc.IH)
  also have "\<dots> = digits_value xs * 10 ^ length (ys @ [y]) + digits_value (ys @ [y])"
    by (simp add: digits_value_snoc algebra_simps)
  finally show ?case .
qed

lemma digit_value_zero [simp]: "digit_value CHR ''0'' = 0"
  by (simp add: digit_value_def)

lemma digits_value_zeros [simp]: "digits_value (replicate z CHR ''0'') = 0"
proof (induction z)
  case 0
  then show ?case by simp
next
  case (Suc z)
  have "replicate (Suc z) CHR ''0'' = replicate z CHR ''0'' @ [CHR ''0'']"
    by (simp add: replicate_append_same)
  then show ?case using Suc by (simp only: digits_value_snoc) simp
qed

lemma digits_value_decimal: "digits_value (decimal m) = m"
proof (induction m rule: decimal.induct)
  case (1 n)
  show ?case
  proof (cases "n < 10")
    case True
    then have "decimal n = [] @ [digit n]" by (simp add: decimal_small)
    then have "digits_value (decimal n) = 10 * digits_value [] + digit_value (digit n)"
      by (simp only: digits_value_snoc)
    with True show ?thesis by (simp add: digit_value_digit)
  next
    case False
    then have "decimal n = decimal (n div 10) @ [digit (n mod 10)]" by (simp add: decimal_large)
    then have "digits_value (decimal n)
               = 10 * digits_value (decimal (n div 10)) + digit_value (digit (n mod 10))"
      by (simp only: digits_value_snoc)
    also have "digits_value (decimal (n div 10)) = n div 10" using False by (rule 1)
    also have "digit_value (digit (n mod 10)) = n mod 10" by (rule digit_value_digit) simp
    finally show ?thesis by simp
  qed
qed

lemma strip_zeros_value:
  "length (strip_zeros ds) \<le> length ds
   \<and> digits_value ds
       = digits_value (strip_zeros ds) * 10 ^ (length ds - length (strip_zeros ds))"
proof (induction ds rule: rev_induct)
  case Nil
  then show ?case by simp
next
  case (snoc c ds)
  show ?case
  proof (cases "c = CHR ''0''")
    case True
    then have s: "strip_zeros (ds @ [c]) = strip_zeros ds" by (simp add: strip_zeros_snoc)
    from snoc have le: "length (strip_zeros ds) \<le> length ds" by simp
    then have l: "length (ds @ [c]) - length (strip_zeros ds)
                  = Suc (length ds - length (strip_zeros ds))" by simp
    have "digits_value (ds @ [c]) = 10 * digits_value ds" using True by (simp add: digits_value_snoc)
    also have "\<dots> = 10 * (digits_value (strip_zeros ds) * 10 ^ (length ds - length (strip_zeros ds)))"
      using snoc by simp
    finally show ?thesis using le by (simp only: s l) simp
  next
    case False
    then have "strip_zeros (ds @ [c]) = ds @ [c]" by (simp add: strip_zeros_snoc)
    then show ?thesis by simp
  qed
qed

subsection \<open>Decimals of the same value round to the same double\<close>

lemma round_units_scale_both:
  assumes "0 < c" shows "round_units (n * c) (d * c) = round_units n d"
proof -
  have q: "(n * c) div (d * c) = n div d" using assms by simp
  have "round_half_even (n * c) ((d * 2 ^ (bit_length (n div d) - 53)) * c)
        = round_half_even n (d * 2 ^ (bit_length (n div d) - 53))"
    using assms by (rule round_half_even_scale)
  then have "round_half_even (n * c) (d * c * 2 ^ (bit_length (n div d) - 53))
        = round_half_even n (d * 2 ^ (bit_length (n div d) - 53))"
    by (simp only: mult_ac)
  then show ?thesis by (simp only: round_units_def Let_def q)
qed

lemma decimal_units_shift: "decimal_units (m * 10 ^ z) e = decimal_units m (e + int z)"
proof (cases "0 \<le> e")
  case True
  then have p: "0 \<le> e + int z" and n: "nat (e + int z) = z + nat e" by simp_all
  have "decimal_units (m * 10 ^ z) e = round_units (m * 10 ^ z * 10 ^ nat e * 2 ^ 1074) 1"
    using True by (simp only: decimal_units_def if_True)
  also have "m * 10 ^ z * 10 ^ nat e = m * 10 ^ (z + nat e)" by (simp only: power_add mult.assoc)
  also have "round_units (m * 10 ^ (z + nat e) * 2 ^ 1074) 1 = decimal_units m (e + int z)"
    by (simp only: decimal_units_def p if_True n)
  finally show ?thesis .
next
  case False
  define a where "a = nat (- e)"
  have e: "e = - int a" using False by (simp add: a_def)
  have lhs: "decimal_units (m * 10 ^ z) e = round_units (m * 10 ^ z * 2 ^ 1074) (10 ^ a)"
    using False by (simp only: decimal_units_def if_False a_def)
  show ?thesis
  proof (cases "a \<le> z")
    case True
    then have p: "0 \<le> e + int z" and n: "nat (e + int z) = z - a" by (simp_all add: e)
    have z: "(10::nat) ^ z = 10 ^ (z - a) * 10 ^ a" using True by (simp add: power_add [symmetric])
    have "m * 10 ^ z * 2 ^ 1074 = (m * 10 ^ (z - a) * 2 ^ 1074) * 10 ^ a"
      by (simp only: z mult_ac)
    then have "round_units (m * 10 ^ z * 2 ^ 1074) (10 ^ a)
          = round_units ((m * 10 ^ (z - a) * 2 ^ 1074) * 10 ^ a) (10 ^ a)" by (rule arg_cong)
    also have "\<dots> = round_units (m * 10 ^ (z - a) * 2 ^ 1074) 1"
      by (rule round_units_cancel) simp
    also have "\<dots> = decimal_units m (e + int z)"
      by (simp only: decimal_units_def p if_True n)
    finally show ?thesis by (simp only: lhs)
  next
    case False
    then have p: "\<not> 0 \<le> e + int z" and n: "nat (- (e + int z)) = a - z" by (simp_all add: e)
    have a: "(10::nat) ^ a = 10 ^ (a - z) * 10 ^ z" using False by (simp add: power_add [symmetric])
    have "m * 10 ^ z * 2 ^ 1074 = (m * 2 ^ 1074) * 10 ^ z" by (simp only: mult_ac)
    then have "round_units (m * 10 ^ z * 2 ^ 1074) (10 ^ a)
          = round_units ((m * 2 ^ 1074) * 10 ^ z) (10 ^ (a - z) * 10 ^ z)"
      by (simp only: a [symmetric])
    also have "\<dots> = round_units (m * 2 ^ 1074) (10 ^ (a - z))"
      by (rule round_units_scale_both) simp
    also have "\<dots> = decimal_units m (e + int z)"
      by (simp only: decimal_units_def p if_False n)
    finally show ?thesis by (simp only: lhs)
  qed
qed

lemma decimal_units_same:
  assumes "m = m' * 10 ^ z" and "e' = e + int z"
  shows "decimal_units m e = decimal_units m' e'"
  by (simp only: assms decimal_units_shift)

subsection \<open>Reading what Number::toString writes\<close>

lemma exponent_value_Nil [simp]: "exponent_value [] = 0"
  by (simp add: exponent_value_def)

lemma exponent_value_written:
  "exponent_value (''e'' @ (if b then ''-'' else ''+'') @ decimal m)
     = (if b then - int m else int m)"
  by (simp add: exponent_value_def digits_value_decimal)

lemma json_number_value_parts:
  assumes "list_all is_digit ip" and "ip \<noteq> []" and "rest = [] \<or> \<not> is_digit (hd rest)"
  shows "json_number_value ((if s then ''-'' else []) @ ip @ rest)
         = (let point = (case rest of [] \<Rightarrow> False | c # r \<Rightarrow> c = CHR ''.'');
                fs = (if point then takeWhile is_digit (tl rest) else []);
                ex = (if point then dropWhile is_digit (tl rest) else rest)
            in pack s (decimal_units (digits_value (ip @ fs))
                        (exponent_value ex - int (length fs))))"
proof -
  define t where "t = (if s then ''-'' else []) @ ip @ rest"
  from assms(1,2) have hd: "is_digit (hd ip)" by (cases ip) simp_all
  then have nm: "hd ip \<noteq> CHR ''-''" by auto
  have neg: "(case t of [] \<Rightarrow> False | c # r \<Rightarrow> c = CHR ''-'') = s"
    using assms(2) nm by (cases ip) (simp_all add: t_def)
  have u: "(if s then tl t else t) = ip @ rest" by (simp add: t_def)
  have tw: "takeWhile is_digit (ip @ rest) = ip"
  proof (cases rest)
    case Nil
    with assms(1) show ?thesis by (simp add: takeWhile_digits_all)
  next
    case (Cons c r)
    with assms(3) have "\<not> is_digit c" by simp
    with assms(1) show ?thesis unfolding Cons by (rule takeWhile_digits_stop)
  qed
  have dw: "dropWhile is_digit (ip @ rest) = rest"
  proof (cases rest)
    case Nil
    with assms(1) show ?thesis by (simp add: dropWhile_digits_all)
  next
    case (Cons c r)
    with assms(3) have "\<not> is_digit c" by simp
    with assms(1) show ?thesis unfolding Cons by (rule dropWhile_digits_stop)
  qed
  have "json_number_value t
         = (let point = (case rest of [] \<Rightarrow> False | c # r \<Rightarrow> c = CHR ''.'');
                fs = (if point then takeWhile is_digit (tl rest) else []);
                ex = (if point then dropWhile is_digit (tl rest) else rest)
            in pack s (decimal_units (digits_value (ip @ fs))
                        (exponent_value ex - int (length fs))))"
    by (simp only: json_number_value_def Let_def neg u tw dw)
  then show ?thesis by (simp only: t_def)
qed

lemma json_number_value_integer:
  assumes "list_all is_digit ip" and "ip \<noteq> []"
  shows "json_number_value ((if s then ''-'' else []) @ ip)
         = pack s (decimal_units (digits_value ip) 0)"
  using json_number_value_parts [OF assms, of "[]" s] by simp

lemma json_number_value_fraction:
  assumes "list_all is_digit ip" and "ip \<noteq> []" and "list_all is_digit fs"
  shows "json_number_value ((if s then ''-'' else []) @ ip @ ''.'' @ fs)
         = pack s (decimal_units (digits_value (ip @ fs)) (- int (length fs)))"
  using json_number_value_parts [OF assms(1,2), of "''.'' @ fs" s] assms(3)
  by (simp add: takeWhile_digits_all dropWhile_digits_all)

lemma json_number_value_exponent:
  assumes "list_all is_digit ip" and "ip \<noteq> []"
  shows "json_number_value
           ((if s then ''-'' else []) @ ip @ ''e'' @ (if b then ''-'' else ''+'') @ decimal m)
         = pack s (decimal_units (digits_value ip) (if b then - int m else int m))"
proof -
  have "json_number_value
           ((if s then ''-'' else []) @ ip @ (''e'' @ (if b then ''-'' else ''+'') @ decimal m))
         = pack s (decimal_units (digits_value (ip @ []))
             (exponent_value (''e'' @ (if b then ''-'' else ''+'') @ decimal m) - int (length ([]::string))))"
    using json_number_value_parts [OF assms, of "''e'' @ (if b then ''-'' else ''+'') @ decimal m" s]
    by simp
  then show ?thesis by (simp only: exponent_value_written) simp
qed

lemma json_number_value_fraction_exponent:
  assumes "list_all is_digit ip" and "ip \<noteq> []" and "list_all is_digit fs"
  shows "json_number_value
           ((if s then ''-'' else []) @ ip @ ''.'' @ fs @ ''e'' @ (if b then ''-'' else ''+'')
              @ decimal m)
         = pack s (decimal_units (digits_value (ip @ fs))
                    ((if b then - int m else int m) - int (length fs)))"
proof -
  define x where "x = ''e'' @ (if b then ''-'' else ''+'') @ decimal m"
  have x: "x = CHR ''e'' # ((if b then ''-'' else ''+'') @ decimal m)" by (simp add: x_def)
  have tw: "takeWhile is_digit (fs @ x) = fs"
    unfolding x using assms(3) by (rule takeWhile_digits_stop) simp
  have dw: "dropWhile is_digit (fs @ x) = x"
    unfolding x using assms(3) by (rule dropWhile_digits_stop) simp
  have "json_number_value ((if s then ''-'' else []) @ ip @ (''.'' @ fs @ x))
         = pack s (decimal_units (digits_value (ip @ fs)) (exponent_value x - int (length fs)))"
    using json_number_value_parts [OF assms(1,2), of "''.'' @ fs @ x" s]
    by (simp add: tw dw)
  then show ?thesis by (simp only: x_def exponent_value_written)
qed

lemma json_number_value_format:
  assumes D: "list_all is_digit ds" and ne: "ds \<noteq> []"
  shows "json_number_value ((if s then ''-'' else []) @ format_decimal ds n)
         = pack s (decimal_units (digits_value ds) (n - int (length ds)))"
proof -
  consider (int) "0 < n" "n \<le> 21" "int (length ds) \<le> n"
    | (point) "0 < n" "n \<le> 21" "n < int (length ds)"
    | (small) "- 6 < n" "n \<le> 0"
    | (exp1) "\<not> (0 < n \<and> n \<le> 21)" "\<not> (- 6 < n \<and> n \<le> 0)" "length ds = 1"
    | (exp) "\<not> (0 < n \<and> n \<le> 21)" "\<not> (- 6 < n \<and> n \<le> 0)" "length ds \<noteq> 1"
    by linarith
  then show ?thesis
  proof cases
    case int
    define z where "z = nat (n - int (length ds))"
    define t where "t = ds @ replicate z CHR ''0''"
    have f: "format_decimal ds n = t" using int by (simp add: format_decimal_def t_def z_def)
    have "list_all is_digit t" using D by (auto simp add: t_def list_all_iff)
    moreover have "t \<noteq> []" using ne by (simp add: t_def)
    ultimately have "json_number_value ((if s then ''-'' else []) @ t)
          = pack s (decimal_units (digits_value t) 0)"
      by (rule json_number_value_integer)
    also have "digits_value t = digits_value ds * 10 ^ z"
      by (simp add: t_def digits_value_append)
    also have "decimal_units (digits_value ds * 10 ^ z) 0 = decimal_units (digits_value ds) (0 + int z)"
      by (rule decimal_units_shift)
    also have "0 + int z = n - int (length ds)" using int by (simp add: z_def)
    finally show ?thesis by (simp only: f)
  next
    case point
    define ip where "ip = take (nat n) ds"
    define fs where "fs = drop (nat n) ds"
    have f: "format_decimal ds n = ip @ ''.'' @ fs"
      using point by (simp add: format_decimal_def ip_def fs_def)
    have ipne: "ip \<noteq> []" using point ne by (simp add: ip_def)
    have "list_all is_digit ip" using D by (auto simp add: ip_def list_all_iff dest: in_set_takeD)
    moreover note ipne
    moreover have "list_all is_digit fs" using D by (auto simp add: fs_def list_all_iff dest: in_set_dropD)
    ultimately have "json_number_value ((if s then ''-'' else []) @ ip @ ''.'' @ fs)
         = pack s (decimal_units (digits_value (ip @ fs)) (- int (length fs)))"
      by (rule json_number_value_fraction)
    also have "ip @ fs = ds" by (simp add: ip_def fs_def)
    also have "- int (length fs) = n - int (length ds)" using point by (simp add: fs_def)
    finally show ?thesis by (simp only: f)
  next
    case small
    define z where "z = nat (- n)"
    define fs where "fs = replicate z CHR ''0'' @ ds"
    have f: "format_decimal ds n = ''0'' @ ''.'' @ fs"
      using small by (simp add: format_decimal_def fs_def z_def)
    have "list_all is_digit ''0''" by simp
    moreover have "''0'' \<noteq> []" by simp
    moreover have "list_all is_digit fs" using D by (auto simp add: fs_def list_all_iff)
    ultimately have "json_number_value ((if s then ''-'' else []) @ ''0'' @ ''.'' @ fs)
         = pack s (decimal_units (digits_value (''0'' @ fs)) (- int (length fs)))"
      by (rule json_number_value_fraction)
    also have "digits_value (''0'' @ fs) = digits_value ds"
    proof -
      have "digits_value (''0'' @ fs) = digits_value (replicate (Suc z) CHR ''0'' @ ds)"
        by (simp add: fs_def)
      also have "\<dots> = digits_value (replicate (Suc z) CHR ''0'') * 10 ^ length ds + digits_value ds"
        by (rule digits_value_append)
      finally show ?thesis by (simp only: digits_value_zeros)
    qed
    also have "- int (length fs) = n - int (length ds)" using small by (simp add: fs_def z_def)
    finally show ?thesis by (simp only: f)
  next
    case exp1
    have f: "format_decimal ds n
             = ds @ ''e'' @ (if n - 1 < 0 then ''-'' else ''+'') @ decimal (nat \<bar>n - 1\<bar>)"
    proof -
      have "format_decimal ds n
            = (let ex = (if n - 1 < 0 then ''-'' else ''+'') @ decimal (nat \<bar>n - 1\<bar>)
               in if int (length ds) = 1 then ds @ ''e'' @ ex
                  else take 1 ds @ ''.'' @ drop 1 ds @ ''e'' @ ex)"
        by (simp only: format_decimal_def Let_def exp1(1,2) if_False)
      then show ?thesis using exp1(3) by (simp add: Let_def)
    qed
    have "json_number_value ((if s then ''-'' else []) @ ds @ ''e''
            @ (if n - 1 < 0 then ''-'' else ''+'') @ decimal (nat \<bar>n - 1\<bar>))
         = pack s (decimal_units (digits_value ds)
             (if n - 1 < 0 then - int (nat \<bar>n - 1\<bar>) else int (nat \<bar>n - 1\<bar>)))"
      using D ne by (rule json_number_value_exponent)
    also have "(if n - 1 < 0 then - int (nat \<bar>n - 1\<bar>) else int (nat \<bar>n - 1\<bar>))
               = n - int (length ds)" using exp1(3) by simp
    finally show ?thesis by (simp only: f)
  next
    case exp
    define ip where "ip = take 1 ds"
    define fs where "fs = drop 1 ds"
    have f: "format_decimal ds n
             = ip @ ''.'' @ fs @ ''e'' @ (if n - 1 < 0 then ''-'' else ''+'') @ decimal (nat \<bar>n - 1\<bar>)"
    proof -
      have "format_decimal ds n
            = (let ex = (if n - 1 < 0 then ''-'' else ''+'') @ decimal (nat \<bar>n - 1\<bar>)
               in if int (length ds) = 1 then ds @ ''e'' @ ex
                  else take 1 ds @ ''.'' @ drop 1 ds @ ''e'' @ ex)"
        by (simp only: format_decimal_def Let_def exp(1,2) if_False)
      then show ?thesis using exp(3) by (simp add: Let_def ip_def fs_def)
    qed
    have ipne: "ip \<noteq> []" using ne by (simp add: ip_def)
    have lfs: "int (length fs) = int (length ds) - 1" using ne by (cases ds) (simp_all add: fs_def)
    have "list_all is_digit ip" using D by (auto simp add: ip_def list_all_iff dest: in_set_takeD)
    moreover note ipne
    moreover have "list_all is_digit fs" using D by (auto simp add: fs_def list_all_iff dest: in_set_dropD)
    ultimately have "json_number_value ((if s then ''-'' else []) @ ip @ ''.'' @ fs @ ''e''
            @ (if n - 1 < 0 then ''-'' else ''+'') @ decimal (nat \<bar>n - 1\<bar>))
         = pack s (decimal_units (digits_value (ip @ fs))
             ((if n - 1 < 0 then - int (nat \<bar>n - 1\<bar>) else int (nat \<bar>n - 1\<bar>)) - int (length fs)))"
      by (rule json_number_value_fraction_exponent)
    also have "ip @ fs = ds" by (simp add: ip_def fs_def)
    also have "(if n - 1 < 0 then - int (nat \<bar>n - 1\<bar>) else int (nat \<bar>n - 1\<bar>)) - int (length fs)
               = n - int (length ds)" using lfs by simp
    finally show ?thesis by (simp only: f)
  qed
qed

text \<open>
  Reading the text that Number::toString writes for a double gives the double back
  (negative zero apart, which is written \<open>0\<close>).
\<close>

lemma Number_toString_value:
  assumes "is_double x" and "isFinite x" and "x \<noteq> Finite True 0"
  shows "json_number_value (Number_toString x) = x"
proof (cases x)
  case (Finite s p)
  show ?thesis
  proof (cases "p = 0")
    case True
    with assms(3) Finite have s: "\<not> s" by simp
    have "json_number_value ((if False then ''-'' else []) @ ''0'')
          = pack False (decimal_units (digits_value ''0'') 0)"
      by (rule json_number_value_integer) simp_all
    then have "json_number_value ''0'' = Finite False 0"
      by (simp add: digits_value_def pack_def)
    with True s Finite show ?thesis by (simp add: Number_toString_def)
  next
    case False
    from assms(1) Finite have rep: "round_units p 1 = p" and lt: "p < 2 ^ 2098"
      by (simp_all only: is_double_def number.case)
    obtain m e where me: "shortest_decimal p = (m, e)" by (cases "shortest_decimal p")
    from rep me have r: "decimal_units m e = p" by (rule shortest_decimal_rounds)
    define ds where "ds = strip_zeros (decimal m)"
    define z where "z = length (decimal m) - length ds"
    from False have "0 < fst (shortest_decimal p)" by (intro shortest_decimal_positive) simp
    with me have m: "0 < m" by simp
    have "strip_zeros (decimal m) \<noteq> [] \<and> hd (strip_zeros (decimal m)) \<noteq> CHR ''0''"
      using decimal_not_Nil decimal_hd [OF m] by (rule strip_zeros_hd)
    then have ne: "ds \<noteq> []" by (simp add: ds_def)
    have D: "list_all is_digit ds"
      unfolding ds_def by (rule strip_zeros_digits) (rule decimal_digits)
    from strip_zeros_value [of "decimal m"]
    have le: "length ds \<le> length (decimal m)"
      and v: "m = digits_value ds * 10 ^ z"
      by (simp_all add: ds_def z_def digits_value_decimal)
    have n: "Number_toString x
             = (if s then ''-'' else []) @ format_decimal ds (e + int (length (decimal m)))"
      using False me by (simp add: Finite Number_toString_def ds_def Let_def)
    have "json_number_value (Number_toString x)
          = pack s (decimal_units (digits_value ds)
              (e + int (length (decimal m)) - int (length ds)))"
      unfolding n using D ne by (rule json_number_value_format)
    also have "e + int (length (decimal m)) - int (length ds) = e + int z"
      using le by (simp add: z_def)
    also have "decimal_units (digits_value ds) (e + int z) = decimal_units m e"
      using v by (rule decimal_units_same [symmetric]) simp
    also have "pack s (decimal_units m e) = Finite s p" using lt by (simp only: r pack_def if_True)
    finally show ?thesis by (simp only: Finite)
  qed
next
  case NaN
  with assms(2) show ?thesis by simp
next
  case (Infinity s)
  with assms(2) show ?thesis by simp
qed

lemma totalArea_value_text:
  "totalArea_value (totalArea_text v) = (if json_number v then Some (json_number_value v) else None)"
  by (simp add: totalArea_value_def totalArea_number_record_def totalArea_text_def Let_def)

subsection \<open>\<open>Math.PI\<close> and \<open>\<pi>\<close>\<close>









subsection \<open>The rounding error of a product\<close>





subsection \<open>Relative errors compose\<close>




subsection \<open>The areas against the closed forms over the real numbers\<close>






subsection \<open>Areas that differ from the closed form\<close>




section \<open>The aggregation\<close>

lemma reduce_append: "reduce f a (xs @ ys) = reduce f (reduce f a xs) ys"
  by (induction xs arbitrary: a) simp_all

lemma reduce_map: "reduce (\<lambda>acc x. g acc (h x)) a xs = foldl g a (map h xs)"
  by (induction xs arbitrary: a) simp_all

text \<open>
  Claim C1.  For every sequence of shapes, \<open>AreaCalculator.sum\<close> returns the sum of
  \<open>area()\<close> over every element in iteration order: it starts from \<open>0\<close> and adds the area
  of each element in turn with the floating-point addition of the language, both in the
  OCP-compliant and in the SRP-compliant program.  The embedding is a function of the
  calculator alone, as the method reads \<open>this.shapes\<close> and assigns nothing.
\<close>

theorem AreaCalculator_sum_in_order:
  "AreaCalculator_sum this = foldl (+) 0 (map area (shapes this))
   \<and> srp_AreaCalculator_sum that = foldl (+) 0 (map srp_area (srp_shapes that))
   \<and> AreaCalculator_sum \<lparr>shapes = xs @ [s]\<rparr> = AreaCalculator_sum \<lparr>shapes = xs\<rparr> + area s
   \<and> srp_AreaCalculator_sum \<lparr>srp_shapes = ys @ [t]\<rparr>
        = srp_AreaCalculator_sum \<lparr>srp_shapes = ys\<rparr> + srp_area t"
  by (simp add: AreaCalculator_sum_def srp_AreaCalculator_sum_def reduce_map reduce_append)

text \<open>
  Claim C3.  \<open>AreaCalculator.sum\<close> applied to the empty sequence of shapes returns \<open>0\<close>,
  in each of the four programs.
\<close>

theorem sum_empty:
  "AreaCalculator_sum \<lparr>shapes = []\<rparr> = 0 \<and> ocpv_sum [] = Num 0
   \<and> srp_AreaCalculator_sum \<lparr>srp_shapes = []\<rparr> = 0 \<and> srpv_sum \<lparr>srpv_shapes = []\<rparr> = 0"
  by (simp add: AreaCalculator_sum_def ocpv_sum_def srp_AreaCalculator_sum_def srpv_sum_def)

section \<open>The violating programs\<close>

lemma srpv_loop_reduce:
  "srpv_loop a (map same_dimensions cs) = reduce (\<lambda>acc shape. acc + srp_area shape) a cs"
proof (induction cs arbitrary: a)
  case Nil
  show ?case by simp
next
  case (Cons c cs)
  show ?case by (cases c) (simp_all add: Cons.IH)
qed

text \<open>
  Claim C9.  On every list of circles and squares, the \<open>for\<close> loop of the SRP-violating
  calculator over the shapes of the same dimensions returns the number that the
  \<open>reduce\<close> of the SRP-compliant calculator returns, and \<open>output()\<close> of the former returns
  the string that \<open>Outputter.toText()\<close> returns for the latter.
\<close>

theorem srp_variants_equivalent:
  "srpv_sum \<lparr>srpv_shapes = map same_dimensions cs\<rparr> = srp_AreaCalculator_sum \<lparr>srp_shapes = cs\<rparr>
   \<and> srpv_output \<lparr>srpv_shapes = map same_dimensions cs\<rparr>
       = toText \<lparr>areaCalculator = \<lparr>srp_shapes = cs\<rparr>\<rparr>"
  by (simp add: srpv_sum_def srp_AreaCalculator_sum_def srpv_output_def toText_def srpv_loop_reduce)







section \<open>Sign, finiteness and order of summation\<close>

text \<open>
  Claim C7, as stated, fails: a square of side \<open>1e200\<close> has positive finite dimensions,
  and its area \<open>1e200 * 1e200\<close> overflows to \<open>Infinity\<close>; so does the sum of the
  collection that holds this square alone.
\<close>

theorem area_overflow_counterexample:
  "positive_dimensions (Square (lit (10 ^ 200) 1))
   \<and> area (Square (lit (10 ^ 200) 1)) = Infinity False
   \<and> \<not> isFinite (area (Square (lit (10 ^ 200) 1)))
   \<and> list_all positive_dimensions [Square (lit (10 ^ 200) 1)]
   \<and> \<not> isFinite (AreaCalculator_sum \<lparr>shapes = [Square (lit (10 ^ 200) 1)]\<rparr>)"
proof -
  have pf: "positive_finite (lit (10 ^ 200) 1)" unfolding lit_1e200 by (simp add: dbl_def)
  have a: "area (Square (lit (10 ^ 200) 1)) = Infinity False" by (rule area_1e200)
  have s: "AreaCalculator_sum \<lparr>shapes = [Square (lit (10 ^ 200) 1)]\<rparr> = Infinity False"
    by (simp only: AreaCalculator_sum_def AreaCalculator.simps reduce.simps a zero_number_def
          plus_number.simps)
  show ?thesis
    by (simp only: a s pf positive_dimensions.simps list.pred_inject isFinite_simps simp_thms)
qed

text \<open>
  Claim C7, amended.  For every shape constructed with positive finite dimensions,
  \<open>area()\<close> returns a number that is not \<open>NaN\<close> and not negative: a finite non-negative
  number, or \<open>+Infinity\<close> when the product overflows.  It is finite when every dimension
  is below \<open>2 ^ 510\<close>.  Consequently, for every collection of such shapes the sum is not
  \<open>NaN\<close> and not negative; it is finite when every area is finite and the exact sum of
  the areas, times \<open>(1 + 2 ^ -53) ^ n\<close> for \<open>n\<close> shapes, is below \<open>2 ^ 1024\<close>.
\<close>

theorem area_of_positive_dimensions:
  "(positive_dimensions shape \<longrightarrow> non_negative (area shape))
   \<and> (dimensions_below 510 shape \<longrightarrow> isFinite (area shape))
   \<and> (list_all positive_dimensions xs \<longrightarrow> non_negative (AreaCalculator_sum \<lparr>shapes = xs\<rparr>))
   \<and> (list_all positive_dimensions xs \<and> list_all (\<lambda>s. isFinite (area s)) xs
        \<and> sum_list (map (\<lambda>s. units (area s)) xs) * (2 ^ 53 + 1) ^ length xs
            < 2 ^ 2098 * (2 ^ 53) ^ length xs
      \<longrightarrow> isFinite (AreaCalculator_sum \<lparr>shapes = xs\<rparr>))
   \<and> (srp_positive_dimensions t \<longrightarrow> non_negative (srp_area t))
   \<and> (list_all srp_positive_dimensions ys
      \<longrightarrow> non_negative (srp_AreaCalculator_sum \<lparr>srp_shapes = ys\<rparr>))"
proof (intro conjI impI)
  assume "positive_dimensions shape"
  then show "non_negative (area shape)" by (rule area_non_negative)
next
  assume "dimensions_below 510 shape"
  then show "isFinite (area shape)" by (rule area_finite)
next
  assume "list_all positive_dimensions xs"
  then have "list_all (\<lambda>s. non_negative (area s)) xs"
    by (simp add: list_all_iff area_non_negative)
  then show "non_negative (AreaCalculator_sum \<lparr>shapes = xs\<rparr>)"
    by (simp add: AreaCalculator_sum_def reduce_non_negative)
next
  assume a: "list_all positive_dimensions xs \<and> list_all (\<lambda>s. isFinite (area s)) xs
        \<and> sum_list (map (\<lambda>s. units (area s)) xs) * (2 ^ 53 + 1) ^ length xs
            < 2 ^ 2098 * (2 ^ 53) ^ length xs"
  then have "list_all (\<lambda>s. non_negative (area s) \<and> isFinite (area s)) xs"
    by (simp add: list_all_iff area_non_negative)
  moreover from a have "(0 + sum_list (map (\<lambda>s. units (area s)) xs)) * (2 ^ 53 + 1) ^ length xs
            < 2 ^ 2098 * (2 ^ 53) ^ length xs" by simp
  ultimately have "isFinite (reduce (\<lambda>acc s. acc + area s) (Finite False 0) xs)"
    by (rule reduce_finite)
  then show "isFinite (AreaCalculator_sum \<lparr>shapes = xs\<rparr>)"
    by (simp add: AreaCalculator_sum_def zero_number_def)
next
  assume "srp_positive_dimensions t"
  then show "non_negative (srp_area t)" by (rule srp_area_non_negative)
next
  assume "list_all srp_positive_dimensions ys"
  then have "list_all (\<lambda>s. non_negative (srp_area s)) ys"
    by (simp add: list_all_iff srp_area_non_negative)
  then show "non_negative (srp_AreaCalculator_sum \<lparr>srp_shapes = ys\<rparr>)"
    by (simp add: srp_AreaCalculator_sum_def reduce_non_negative)
qed

theorem area_of_positive_dimensions_witness:
  "positive_dimensions (Square (lit 10 1)) \<and> non_negative (area (Square (lit 10 1)))
   \<and> dimensions_below 510 (Square (lit 10 1)) \<and> isFinite (area (Square (lit 10 1)))
   \<and> list_all positive_dimensions [Square (lit 10 1)]
   \<and> list_all (\<lambda>s. isFinite (area s)) [Square (lit 10 1)]
   \<and> sum_list (map (\<lambda>s. units (area s)) [Square (lit 10 1)]) * (2 ^ 53 + 1) ^ length [Square (lit 10 1)]
        < 2 ^ 2098 * (2 ^ 53) ^ length [Square (lit 10 1)]
   \<and> non_negative (AreaCalculator_sum \<lparr>shapes = [Square (lit 10 1)]\<rparr>)
   \<and> isFinite (AreaCalculator_sum \<lparr>shapes = [Square (lit 10 1)]\<rparr>)
   \<and> srp_positive_dimensions (srp_Square (lit 10 1))
   \<and> non_negative (srp_area (srp_Square (lit 10 1)))
   \<and> list_all srp_positive_dimensions [srp_Square (lit 10 1)]
   \<and> non_negative (srp_AreaCalculator_sum \<lparr>srp_shapes = [srp_Square (lit 10 1)]\<rparr>)"
proof -
  have l: "lit 10 1 = dbl False 10 1074" by (rule lit_integer) simp
  have sq: "lit 10 1 * lit 10 1 = dbl False 100 1074"
    unfolding l by (rule times_dbl [where w = 53]) (simp_all add: round_units_small_Suc)
  have p: "positive_finite (lit 10 1)" unfolding l by (simp add: dbl_def)
  have b: "magnitude_below 510 (lit 10 1)" unfolding l by (simp add: dbl_def)
  have h1: "positive_dimensions (Square (lit 10 1))" using p by simp
  have h2: "dimensions_below 510 (Square (lit 10 1))" using b by simp
  have h3: "list_all positive_dimensions [Square (lit 10 1)]" using p by simp
  have ar: "area (Square (lit 10 1)) = Finite False (100 * 2 ^ 1074)"
    by (simp only: area.simps sq dbl_def)
  have h4: "list_all (\<lambda>s. isFinite (area s)) [Square (lit 10 1)]"
    by (simp only: list.pred_inject ar isFinite_simps simp_thms)
  have u: "units (area (Square (lit 10 1))) = 100 * 2 ^ 1074"
    by (simp only: ar units_def number.case)
  have e1: "sum_list (map (\<lambda>s. units (area s)) [Square (lit 10 1)]) = 100 * 2 ^ 1074"
    by (simp only: list.map sum_list.Cons sum_list.Nil u add_0_right)
  have e2: "length [Square (lit 10 1)] = 1" by simp
  have h5: "sum_list (map (\<lambda>s. units (area s)) [Square (lit 10 1)]) * (2 ^ 53 + 1) ^ length [Square (lit 10 1)]
        < 2 ^ 2098 * (2 ^ 53) ^ length [Square (lit 10 1)]"
    unfolding e1 e2 by simp
  have h6: "srp_positive_dimensions (srp_Square (lit 10 1))" using p by simp
  have h7: "list_all srp_positive_dimensions [srp_Square (lit 10 1)]" using p by simp
  from area_of_positive_dimensions [of "Square (lit 10 1)" "[Square (lit 10 1)]" "srp_Square (lit 10 1)"
      "[srp_Square (lit 10 1)]"] h1 h2 h3 h4 h5 h6 h7
  show ?thesis by simp
qed

text \<open>
  Claim C4, as stated, fails.  With \<open>a\<close> a triangle of base \<open>2\<close> and height \<open>2 ^ 53\<close>, \<open>b\<close>
  one of base \<open>2\<close> and height \<open>1\<close>, and \<open>c\<close> one of base \<open>-2\<close> and height \<open>2 ^ 53\<close>, the areas
  are \<open>2 ^ 53\<close>, \<open>1\<close> and \<open>- 2 ^ 53\<close>.  In the order \<open>a, b, c\<close> the sum is \<open>0\<close>, because
  \<open>2 ^ 53 + 1\<close> rounds to \<open>2 ^ 53\<close>; in the order \<open>a, c, b\<close> it is \<open>1\<close>.  No tolerance relative
  to the results makes \<open>0\<close> and \<open>1\<close> agree.  (With positive dimensions only, the order can
  still decide between a finite sum and \<open>Infinity\<close>: lemma \<open>sum_order_overflow\<close>.)
\<close>

theorem sum_permutation_counterexample:
  "mset [Triangle (lit 2 1) (lit 9007199254740992 1),
         Triangle (dbl True 2 1074) (lit 9007199254740992 1), Triangle (lit 2 1) (lit 1 1)]
   = mset [Triangle (lit 2 1) (lit 9007199254740992 1),
         Triangle (lit 2 1) (lit 1 1), Triangle (dbl True 2 1074) (lit 9007199254740992 1)]
   \<and> AreaCalculator_sum \<lparr>shapes = [Triangle (lit 2 1) (lit 9007199254740992 1),
        Triangle (lit 2 1) (lit 1 1), Triangle (dbl True 2 1074) (lit 9007199254740992 1)]\<rparr>
       = Finite False 0
   \<and> AreaCalculator_sum \<lparr>shapes = [Triangle (lit 2 1) (lit 9007199254740992 1),
        Triangle (dbl True 2 1074) (lit 9007199254740992 1), Triangle (lit 2 1) (lit 1 1)]\<rparr>
       = Finite False (2 ^ 1074)"
proof -
  have "lit 1 1 = Finite False (2 ^ 1074)"
    using lit_integer [of 1] by (simp add: dbl_def)
  with two_sum_cancellation show ?thesis by (simp add: zero_number_def)
qed

text \<open>
  Claim C4, amended.  For every sequence of shapes whose areas are not negative (as they
  are for positive dimensions) and every permutation of it, when both sums are finite
  they agree within the rounding of the additions: each is at most
  \<open>((1 + 2 ^ -53) / (1 - 2 ^ -53)) ^ n\<close> times the other, for \<open>n\<close> shapes.  (They need not be
  equal: the circles of radius \<open>1\<close>, \<open>2\<close>, \<open>3\<close> sum to two adjacent doubles in two
  orders.)
\<close>

theorem sum_permutation_tolerance:
  assumes "mset ys = mset xs"
    and "list_all (\<lambda>shape. non_negative (area shape)) xs"
    and "AreaCalculator_sum \<lparr>shapes = xs\<rparr> = Finite s a"
    and "AreaCalculator_sum \<lparr>shapes = ys\<rparr> = Finite t b"
  shows "\<not> s \<and> \<not> t
         \<and> a * (2 ^ 53 - 1) ^ length xs \<le> b * (2 ^ 53 + 1) ^ length xs
         \<and> b * (2 ^ 53 - 1) ^ length xs \<le> a * (2 ^ 53 + 1) ^ length xs"
proof -
  define S where "S = sum_list (map (\<lambda>x. units (area x)) xs)"
  define n where "n = length xs"
  have set: "set ys = set xs" using assms(1) by (rule mset_eq_setD)
  have len: "length ys = n" using assms(1) unfolding n_def by (rule mset_eq_length)
  have "sum_list (map (\<lambda>x. units (area x)) ys) = sum_mset (image_mset (\<lambda>x. units (area x)) (mset ys))"
    by (simp add: sum_mset_sum_list [symmetric])
  also have "\<dots> = S" by (simp add: assms(1) S_def sum_mset_sum_list [symmetric])
  finally have Sy: "sum_list (map (\<lambda>x. units (area x)) ys) = S" .
  have nys: "list_all (\<lambda>shape. non_negative (area shape)) ys"
    using assms(2) set by (simp add: list_all_iff)
  from reduce_finite_bounds [OF assms(2), of 0 s a] assms(3)
  have s: "\<not> s" and a1: "S * (2 ^ 53 - 1) ^ n \<le> a * (2 ^ 53) ^ n"
    and a2: "a * (2 ^ 53) ^ n \<le> S * (2 ^ 53 + 1) ^ n"
    by (simp_all add: AreaCalculator_sum_def zero_number_def S_def n_def)
  from reduce_finite_bounds [OF nys, of 0 t b] assms(4)
  have t: "\<not> t" and b1: "S * (2 ^ 53 - 1) ^ n \<le> b * (2 ^ 53) ^ n"
    and b2: "b * (2 ^ 53) ^ n \<le> S * (2 ^ 53 + 1) ^ n"
    by (simp_all add: AreaCalculator_sum_def zero_number_def Sy len)
  have "a * (2 ^ 53 - 1) ^ n \<le> b * (2 ^ 53 + 1) ^ n"
    using a2 b1 by (rule permutation_tolerance) simp
  moreover have "b * (2 ^ 53 - 1) ^ n \<le> a * (2 ^ 53 + 1) ^ n"
    using b2 a1 by (rule permutation_tolerance) simp
  ultimately show ?thesis using s t by (simp add: n_def)
qed

theorem sum_permutation_tolerance_witness:
  "mset [Circle (lit 2 1), Circle (lit 3 1), Circle (lit 1 1)]
     = mset [Circle (lit 1 1), Circle (lit 2 1), Circle (lit 3 1)]
   \<and> list_all (\<lambda>shape. non_negative (area shape))
         [Circle (lit 1 1), Circle (lit 2 1), Circle (lit 3 1)]
   \<and> AreaCalculator_sum \<lparr>shapes = [Circle (lit 1 1), Circle (lit 2 1), Circle (lit 3 1)]\<rparr>
       = Finite False (6189958033024885 * 2 ^ 1027)
   \<and> AreaCalculator_sum \<lparr>shapes = [Circle (lit 2 1), Circle (lit 3 1), Circle (lit 1 1)]\<rparr>
       = Finite False (6189958033024886 * 2 ^ 1027)
   \<and> (6189958033024885 * 2 ^ 1027 :: nat) * (2 ^ 53 - 1) ^ 3
       \<le> 6189958033024886 * 2 ^ 1027 * (2 ^ 53 + 1) ^ 3
   \<and> (6189958033024886 * 2 ^ 1027 :: nat) * (2 ^ 53 - 1) ^ 3
       \<le> 6189958033024885 * 2 ^ 1027 * (2 ^ 53 + 1) ^ 3"
proof -
  have h1: "mset [Circle (lit 2 1), Circle (lit 3 1), Circle (lit 1 1)]
     = mset [Circle (lit 1 1), Circle (lit 2 1), Circle (lit 3 1)]" by simp
  have l1: "lit 1 1 = dbl False 1 1074" by (rule lit_integer) simp
  have l2: "lit 2 1 = dbl False 2 1074" by (rule lit_integer) simp
  have l3: "lit 3 1 = dbl False 3 1074" by (rule lit_integer) simp
  have p: "positive_finite (lit 1 1)" "positive_finite (lit 2 1)" "positive_finite (lit 3 1)"
    unfolding l1 l2 l3 by (simp_all add: dbl_def)
  have "non_negative (area (Circle (lit 1 1)))" "non_negative (area (Circle (lit 2 1)))"
    "non_negative (area (Circle (lit 3 1)))"
    by (rule area_non_negative, simp only: positive_dimensions.simps p)+
  then have h2: "list_all (\<lambda>shape. non_negative (area shape))
         [Circle (lit 1 1), Circle (lit 2 1), Circle (lit 3 1)]"
    by (simp only: list.pred_inject simp_thms)
  from three_circles have h3: "AreaCalculator_sum
       \<lparr>shapes = [Circle (lit 1 1), Circle (lit 2 1), Circle (lit 3 1)]\<rparr>
       = Finite False (6189958033024885 * 2 ^ 1027)"
    and h4: "AreaCalculator_sum \<lparr>shapes = [Circle (lit 2 1), Circle (lit 3 1), Circle (lit 1 1)]\<rparr>
       = Finite False (6189958033024886 * 2 ^ 1027)" by simp_all
  have len: "length [Circle (lit 1 1), Circle (lit 2 1), Circle (lit 3 1)] = 3" by simp
  from sum_permutation_tolerance [OF h1 h2 h3 h4, unfolded len] h1 h2 h3 h4 show ?thesis
    by (simp only: simp_thms)
qed

section \<open>Areas and output\<close>




text \<open>
  Claim C6.  \<open>Outputter.toText\<close> returns exactly the string
  \<open>Sum of the areas of provided shapes: \<close> followed by Number::toString of the sum of
  the wrapped calculator, and so does \<open>output()\<close> of the SRP-violating calculator for its
  own sum.  For the empty collection the string ends in \<open>0\<close>, and for the circles of
  radius 2 and 4 with the square of side 3 it ends in \<open>71.83185307179586\<close>.
\<close>

theorem toText_template:
  "toText this = ''Sum of the areas of provided shapes: ''
                   @ Number_toString (srp_AreaCalculator_sum (areaCalculator this))
   \<and> srpv_output that = ''Sum of the areas of provided shapes: ''
                   @ Number_toString (srpv_sum that)
   \<and> toText \<lparr>areaCalculator = \<lparr>srp_shapes = []\<rparr>\<rparr> = ''Sum of the areas of provided shapes: 0''
   \<and> toText \<lparr>areaCalculator = \<lparr>srp_shapes =
         [srp_Circle (lit 2 1), srp_Square (lit 3 1), srp_Circle (lit 4 1)]\<rparr>\<rparr>
       = ''Sum of the areas of provided shapes: 71.83185307179586''"
proof -
  have e: "toText \<lparr>areaCalculator = \<lparr>srp_shapes = []\<rparr>\<rparr> = ''Sum of the areas of provided shapes: 0''"
    by (simp add: toText_def srp_AreaCalculator_sum_def zero_number_def Number_toString_def)
  have "srp_AreaCalculator_sum
          \<lparr>srp_shapes = [srp_Circle (lit 2 1), srp_Square (lit 3 1), srp_Circle (lit 4 1)]\<rparr>
        = Finite False (5054717292616751 * 2 ^ 1028)"
    using scenario_sum
    by (simp only: srp_AreaCalculator_sum_def srp_AreaCalculator.simps reduce.simps srp_area.simps)
  then have "toText \<lparr>areaCalculator = \<lparr>srp_shapes =
         [srp_Circle (lit 2 1), srp_Square (lit 3 1), srp_Circle (lit 4 1)]\<rparr>\<rparr>
       = ''Sum of the areas of provided shapes: '' @ ''71.83185307179586''"
    by (simp only: toText_def Outputter.simps Number_toString_scenario)
  with e show ?thesis by (simp add: toText_def srpv_output_def)
qed

text \<open>
  Claim C5, as stated, fails: for the collection holding a square of side \<open>1e200\<close> the sum
  is \<open>Infinity\<close>, and \<open>toJson\<close> returns the record whose \<open>totalArea\<close> is \<open>null\<close>, which is
  not a number, so that no number is read back.
\<close>

theorem toJson_null_counterexample:
  "srp_AreaCalculator_sum \<lparr>srp_shapes = [srp_Square (lit (10 ^ 200) 1)]\<rparr> = Infinity False
   \<and> toJson \<lparr>areaCalculator = \<lparr>srp_shapes = [srp_Square (lit (10 ^ 200) 1)]\<rparr>\<rparr>
       = totalArea_text ''null''
   \<and> \<not> totalArea_number_record
         (toJson \<lparr>areaCalculator = \<lparr>srp_shapes = [srp_Square (lit (10 ^ 200) 1)]\<rparr>\<rparr>)
   \<and> totalArea_value
         (toJson \<lparr>areaCalculator = \<lparr>srp_shapes = [srp_Square (lit (10 ^ 200) 1)]\<rparr>\<rparr>)
       = None"
proof -
  have s: "srp_AreaCalculator_sum \<lparr>srp_shapes = [srp_Square (lit (10 ^ 200) 1)]\<rparr> = Infinity False"
    by (simp only: srp_AreaCalculator_sum_def srp_AreaCalculator.simps reduce.simps
          srp_area.simps square_1e200 zero_number_def plus_number.simps)
  then have t: "toJson \<lparr>areaCalculator = \<lparr>srp_shapes = [srp_Square (lit (10 ^ 200) 1)]\<rparr>\<rparr>
       = totalArea_text ''null''"
    by (simp only: toJson_def Outputter.simps JSON_stringify_totalArea SerializeJSONNumber_def
          isFinite_simps if_False)
  from s t show ?thesis
    by (simp only: totalArea_number_record_text totalArea_value_text json_number_null
          if_False simp_thms)
qed

text \<open>
  Claim C5, amended.  For every shape collection, \<open>Outputter.toJson\<close> returns the text of
  a record with exactly one key, \<open>totalArea\<close>.  When the sum of the wrapped calculator is
  finite, the value is the JSON number (not a string) that Number::toString writes for
  it, and the number read back from the text is equal to the sum; when the sum is \<open>NaN\<close>
  or infinite, the value is \<open>null\<close> and no number is read back.
\<close>

theorem toJson_record:
  "toJson this
     = totalArea_text
         (if isFinite (srp_AreaCalculator_sum (areaCalculator this))
          then Number_toString (srp_AreaCalculator_sum (areaCalculator this)) else ''null'')
   \<and> totalArea_number_record (toJson this)
       = isFinite (srp_AreaCalculator_sum (areaCalculator this))
   \<and> totalArea_value (toJson this)
       = (if isFinite (srp_AreaCalculator_sum (areaCalculator this))
          then Some (srp_AreaCalculator_sum (areaCalculator this)) else None)"
proof -
  define x where "x = srp_AreaCalculator_sum (areaCalculator this)"
  have t: "toJson this = totalArea_text (if isFinite x then Number_toString x else ''null'')"
    by (simp only: toJson_def JSON_stringify_totalArea SerializeJSONNumber_def x_def)
  have "totalArea_number_record (toJson this) = isFinite x
        \<and> totalArea_value (toJson this) = (if isFinite x then Some x else None)"
  proof (cases "isFinite x")
    case True
    then have j: "json_number (Number_toString x)" by (rule Number_toString_json)
    have "is_double x" and "x \<noteq> Finite True 0"
      using srp_sum_double [of "areaCalculator this"] by (simp_all only: x_def simp_thms)
    then have "json_number_value (Number_toString x) = x"
      using True by (intro Number_toString_value)
    with t True j show ?thesis
      by (simp only: totalArea_number_record_text totalArea_value_text if_True simp_thms)
  next
    case False
    with t show ?thesis
      by (simp only: totalArea_number_record_text totalArea_value_text json_number_null
            if_False simp_thms)
  qed
  with t show ?thesis by (simp only: x_def simp_thms)
qed

theorem toJson_record_witness:
  "toJson \<lparr>areaCalculator =
       \<lparr>srp_shapes = [srp_Circle (lit 2 1), srp_Square (lit 3 1), srp_Circle (lit 4 1)]\<rparr>\<rparr>
     = totalArea_text (Number_toString (Finite False (5054717292616751 * 2 ^ 1028)))
   \<and> totalArea_value
       (toJson \<lparr>areaCalculator =
          \<lparr>srp_shapes = [srp_Circle (lit 2 1), srp_Square (lit 3 1), srp_Circle (lit 4 1)]\<rparr>\<rparr>)
     = Some (Finite False (5054717292616751 * 2 ^ 1028))"
proof -
  have s: "srp_AreaCalculator_sum
          \<lparr>srp_shapes = [srp_Circle (lit 2 1), srp_Square (lit 3 1), srp_Circle (lit 4 1)]\<rparr>
        = Finite False (5054717292616751 * 2 ^ 1028)"
    using scenario_sum
    by (simp only: srp_AreaCalculator_sum_def srp_AreaCalculator.simps reduce.simps srp_area.simps)
  have f: "isFinite (Finite False (5054717292616751 * 2 ^ 1028))" by (simp only: isFinite_simps)
  note r = toJson_record [of "\<lparr>areaCalculator =
       \<lparr>srp_shapes = [srp_Circle (lit 2 1), srp_Square (lit 3 1), srp_Circle (lit 4 1)]\<rparr>\<rparr>",
       unfolded Outputter.simps s if_P [OF f]]
  from r show ?thesis by blast
qed


end
